theory Spec2Isabelle
  imports Main "HOL-Library.Word" "HOL-Library.Monad_Syntax"
begin

unbundle bit_operations_syntax

section \<open>The redo log core of storage/innobase/log/log0log.cc\<close>

text \<open>
  A shallow embedding of the redo log of \<^verbatim>\<open>log0log.cc\<close>. The unsigned 64-bit types
  \<^verbatim>\<open>lsn_t\<close>, \<^verbatim>\<open>ib_uint64_t\<close> and \<^verbatim>\<open>ulint\<close> (the file takes its
  \<^verbatim>\<open>UNIV_WORD_SIZE > 7\<close> branch) are \<open>64 word\<close>: \<open>+\<close>, \<open>-\<close> and \<open>*\<close> wrap as in C.
  Memory reached through a base pointer (\<^verbatim>\<open>log_sys->buf\<close>, the \<^verbatim>\<open>str\<close> argument of
  \<^verbatim>\<open>log_write_low\<close>) is a byte store addressed by the offset from that base.
  A function that may trap (a division by zero, a failed \<^verbatim>\<open>ut_a\<close>, a NULL group) or
  not return (a \<^verbatim>\<open>goto\<close> loop) has an \<open>option\<close> result: \<open>None\<close> means that it does
  not return normally. Debug-only code (\<^verbatim>\<open>ut_ad\<close>, \<^verbatim>\<open>DBUG_PRINT\<close>), the monitor and
  statistics counters (\<^verbatim>\<open>MONITOR_*\<close>, \<^verbatim>\<open>srv_stats\<close>), messages written to the error
  log, and the acquisition and release of \<^verbatim>\<open>log_sys->mutex\<close> have no counterpart:
  the model is one thread running each function from entry to exit.
\<close>

type_synonym byte = "8 word"
type_synonym ulint = "64 word"
type_synonym lsn_t = "64 word"
type_synonym mem = "64 word \<Rightarrow> 8 word"

subsection \<open>Constants\<close>

text \<open>
  Modelled from the spec: \<^verbatim>\<open>log0log.h\<close> and \<^verbatim>\<open>os0file.h\<close> are not among the
  available sources. The block size 512, the header size 12 and the trailer size 4 are the values of spec sections 3,
  6 and 8; the field offsets follow the field order and widths of the log block of
  section 6 (sequence number 4 bytes with the flush flag in its high bit, data length 2
  bytes, first-rec-group offset 2 bytes, checkpoint number 4 bytes).
\<close>

abbreviation (input) OS_FILE_LOG_BLOCK_SIZE :: ulint where "OS_FILE_LOG_BLOCK_SIZE \<equiv> 512"
abbreviation (input) LOG_BLOCK_HDR_SIZE :: ulint where "LOG_BLOCK_HDR_SIZE \<equiv> 12"
abbreviation (input) LOG_BLOCK_TRL_SIZE :: ulint where "LOG_BLOCK_TRL_SIZE \<equiv> 4"
abbreviation (input) LOG_BLOCK_HDR_NO :: ulint where "LOG_BLOCK_HDR_NO \<equiv> 0"
abbreviation (input) LOG_BLOCK_HDR_DATA_LEN :: ulint where "LOG_BLOCK_HDR_DATA_LEN \<equiv> 4"
abbreviation (input) LOG_BLOCK_FIRST_REC_GROUP :: ulint where "LOG_BLOCK_FIRST_REC_GROUP \<equiv> 6"
abbreviation (input) LOG_BLOCK_CHECKPOINT_NO :: ulint where "LOG_BLOCK_CHECKPOINT_NO \<equiv> 8"
abbreviation (input) LOG_BLOCK_CHECKSUM :: ulint where "LOG_BLOCK_CHECKSUM \<equiv> 4"
abbreviation (input) LOG_BLOCK_FLUSH_BIT_MASK :: ulint where "LOG_BLOCK_FLUSH_BIT_MASK \<equiv> 0x80000000"
abbreviation (input) LSN_MAX :: lsn_t where "LSN_MAX \<equiv> - 1"

text \<open>The macros defined at the top of \<^verbatim>\<open>log0log.cc\<close> itself.\<close>

abbreviation (input) LOG_BUF_WRITE_MARGIN :: ulint where
  "LOG_BUF_WRITE_MARGIN \<equiv> 4 * OS_FILE_LOG_BLOCK_SIZE"
abbreviation (input) LOG_BUF_FLUSH_RATIO :: ulint where "LOG_BUF_FLUSH_RATIO \<equiv> 2"
abbreviation (input) LOG_POOL_CHECKPOINT_RATIO_ASYNC :: lsn_t where
  "LOG_POOL_CHECKPOINT_RATIO_ASYNC \<equiv> 32"
abbreviation (input) LOG_POOL_PREFLUSH_RATIO_SYNC :: lsn_t where "LOG_POOL_PREFLUSH_RATIO_SYNC \<equiv> 16"
abbreviation (input) LOG_POOL_PREFLUSH_RATIO_ASYNC :: lsn_t where "LOG_POOL_PREFLUSH_RATIO_ASYNC \<equiv> 8"
abbreviation (input) LOG_ARCHIVE_RATIO_ASYNC :: lsn_t where "LOG_ARCHIVE_RATIO_ASYNC \<equiv> 16"

datatype srv_unix_flush_t =
    SRV_UNIX_FSYNC
  | SRV_UNIX_O_DSYNC
  | SRV_UNIX_LITTLESYNC
  | SRV_UNIX_NOSYNC
  | SRV_UNIX_O_DIRECT
  | SRV_UNIX_O_DIRECT_NO_FSYNC
  | SRV_UNIX_ALL_O_DIRECT

datatype log_arch_state_t =
    LOG_ARCH_ON
  | LOG_ARCH_STOPPING
  | LOG_ARCH_STOPPING2
  | LOG_ARCH_STOPPED
  | LOG_ARCH_OFF

datatype srv_shutdown_state_t =
    SRV_SHUTDOWN_NONE
  | SRV_SHUTDOWN_CLEANUP
  | SRV_SHUTDOWN_FLUSH_PHASE
  | SRV_SHUTDOWN_LAST_PHASE
  | SRV_SHUTDOWN_EXIT_THREADS

text \<open>
  The contents of a 512-byte checkpoint block, one field for each value that
  \<^verbatim>\<open>log_group_checkpoint\<close> stores with \<^verbatim>\<open>mach_write_to_4\<close> or \<^verbatim>\<open>mach_write_to_8\<close>
  (the byte offsets \<^verbatim>\<open>LOG_CHECKPOINT_*\<close> belong to a header that is not available).
\<close>

record checkpoint_block =
  cp_checkpoint_no :: "64 word"
  cp_checkpoint_lsn :: lsn_t
  cp_offset_low32 :: ulint
  cp_offset_high32 :: ulint
  cp_log_buf_size :: ulint
  cp_archived_lsn :: lsn_t
  cp_group_info :: "ulint \<Rightarrow> lsn_t"
  cp_checksum_1 :: ulint
  cp_checksum_2 :: ulint

text \<open>
  The constants of headers that are not available and whose values the spec leaves to
  the deployment, and the two checksum routines that the file calls through
  \<^verbatim>\<open>log_checksum_algorithm_ptr\<close> and \<^verbatim>\<open>ut_fold_binary\<close>, are parameters of the
  model. \<open>mlog_checkpoint_rec\<close> is the \<^verbatim>\<open>MLOG_CHECKPOINT\<close> marker that the
  mini-transaction layer builds for a checkpoint lsn.
\<close>

record log_consts =
  UNIV_PAGE_SIZE :: ulint
  LOG_FILE_HDR_SIZE :: lsn_t
  LOG_START_LSN :: lsn_t
  LOG_CHECKPOINT_1 :: ulint
  LOG_CHECKPOINT_2 :: ulint
  SIZE_OF_MLOG_CHECKPOINT :: lsn_t
  log_checksum_algorithm :: "mem \<Rightarrow> ulint \<Rightarrow> ulint"
  ut_fold_checkpoint_1 :: "checkpoint_block \<Rightarrow> ulint"
  ut_fold_checkpoint_2 :: "checkpoint_block \<Rightarrow> ulint"
  mlog_checkpoint_rec :: "lsn_t \<Rightarrow> mem"

definition LOG_BUF_FLUSH_MARGIN :: "log_consts \<Rightarrow> ulint" where
  "LOG_BUF_FLUSH_MARGIN K = LOG_BUF_WRITE_MARGIN + 4 * UNIV_PAGE_SIZE K"

definition LOG_CHECKPOINT_FREE_PER_THREAD :: "log_consts \<Rightarrow> ulint" where
  "LOG_CHECKPOINT_FREE_PER_THREAD K = 4 * UNIV_PAGE_SIZE K"

definition LOG_CHECKPOINT_EXTRA_FREE :: "log_consts \<Rightarrow> ulint" where
  "LOG_CHECKPOINT_EXTRA_FREE K = 8 * UNIV_PAGE_SIZE K"

definition LOG_ARCHIVE_EXTRA_MARGIN :: "log_consts \<Rightarrow> ulint" where
  "LOG_ARCHIVE_EXTRA_MARGIN K = 4 * UNIV_PAGE_SIZE K"

subsection \<open>Memory and the block codec\<close>

definition ut_memcpy :: "mem \<Rightarrow> ulint \<Rightarrow> mem \<Rightarrow> ulint \<Rightarrow> mem" where
  "ut_memcpy m dest src n = (\<lambda>a. if a - dest < n then src (a - dest) else m a)"

definition ut_memmove :: "mem \<Rightarrow> ulint \<Rightarrow> ulint \<Rightarrow> ulint \<Rightarrow> mem" where
  "ut_memmove m dest src n = (\<lambda>a. if a - dest < n then m (src + (a - dest)) else m a)"

definition memset :: "mem \<Rightarrow> ulint \<Rightarrow> byte \<Rightarrow> ulint \<Rightarrow> mem" where
  "memset m dest c n = (\<lambda>a. if a - dest < n then c else m a)"

text \<open>
  Modelled from the spec: \<^verbatim>\<open>ut0byte.ic\<close>, \<^verbatim>\<open>mach0data.ic\<close> and \<^verbatim>\<open>log0log.ic\<close> are not
  among the available sources. \<open>ut_calc_align_down\<close> and \<open>ut_calc_align\<close> are the \<^verbatim>\<open>align_down\<close> and
  \<^verbatim>\<open>align_up\<close> of spec section 4.2; the \<open>mach_*\<close> routines store unsigned values
  big-endian (section 6); the block accessors read and write the header fields of
  section 6; \<open>log_block_init\<close> stamps the sequence number of section 4.1, a data length
  of one header and a first-rec-group offset of 0 ("0 if none", section 3).
\<close>

definition ut_calc_align_down :: "ulint \<Rightarrow> ulint \<Rightarrow> ulint" where
  "ut_calc_align_down n align_no = n - n mod align_no"

definition ut_calc_align :: "ulint \<Rightarrow> ulint \<Rightarrow> ulint" where
  "ut_calc_align n align_no = ut_calc_align_down (n + align_no - 1) align_no"

definition ut_uint64_align_down :: "lsn_t \<Rightarrow> ulint \<Rightarrow> lsn_t" where
  "ut_uint64_align_down n align_no = n - n mod align_no"

definition ut_uint64_align_up :: "lsn_t \<Rightarrow> ulint \<Rightarrow> lsn_t" where
  "ut_uint64_align_up n align_no = ut_uint64_align_down (n + align_no - 1) align_no"

definition mach_write_to_2 :: "mem \<Rightarrow> ulint \<Rightarrow> ulint \<Rightarrow> mem" where
  "mach_write_to_2 m a n = m(a := ucast (drop_bit 8 n), a + 1 := ucast n)"

definition mach_read_from_2 :: "mem \<Rightarrow> ulint \<Rightarrow> ulint" where
  "mach_read_from_2 m a = push_bit 8 (ucast (m a)) OR ucast (m (a + 1))"

definition mach_write_to_4 :: "mem \<Rightarrow> ulint \<Rightarrow> ulint \<Rightarrow> mem" where
  "mach_write_to_4 m a n =
     m(a := ucast (drop_bit 24 n), a + 1 := ucast (drop_bit 16 n),
       a + 2 := ucast (drop_bit 8 n), a + 3 := ucast n)"

definition mach_read_from_4 :: "mem \<Rightarrow> ulint \<Rightarrow> ulint" where
  "mach_read_from_4 m a =
     push_bit 24 (ucast (m a)) OR push_bit 16 (ucast (m (a + 1)))
       OR push_bit 8 (ucast (m (a + 2))) OR ucast (m (a + 3))"

definition log_block_get_data_len :: "mem \<Rightarrow> ulint \<Rightarrow> ulint" where
  "log_block_get_data_len m log_block = mach_read_from_2 m (log_block + LOG_BLOCK_HDR_DATA_LEN)"

definition log_block_set_data_len :: "mem \<Rightarrow> ulint \<Rightarrow> ulint \<Rightarrow> mem" where
  "log_block_set_data_len m log_block len =
     mach_write_to_2 m (log_block + LOG_BLOCK_HDR_DATA_LEN) len"

definition log_block_get_first_rec_group :: "mem \<Rightarrow> ulint \<Rightarrow> ulint" where
  "log_block_get_first_rec_group m log_block =
     mach_read_from_2 m (log_block + LOG_BLOCK_FIRST_REC_GROUP)"

definition log_block_set_first_rec_group :: "mem \<Rightarrow> ulint \<Rightarrow> ulint \<Rightarrow> mem" where
  "log_block_set_first_rec_group m log_block offset =
     mach_write_to_2 m (log_block + LOG_BLOCK_FIRST_REC_GROUP) offset"

definition log_block_set_checkpoint_no :: "mem \<Rightarrow> ulint \<Rightarrow> 64 word \<Rightarrow> mem" where
  "log_block_set_checkpoint_no m log_block no =
     mach_write_to_4 m (log_block + LOG_BLOCK_CHECKPOINT_NO) (no AND 0xFFFFFFFF)"

definition log_block_set_hdr_no :: "mem \<Rightarrow> ulint \<Rightarrow> ulint \<Rightarrow> mem" where
  "log_block_set_hdr_no m log_block n = mach_write_to_4 m (log_block + LOG_BLOCK_HDR_NO) n"

definition log_block_set_flush_bit :: "mem \<Rightarrow> ulint \<Rightarrow> bool \<Rightarrow> mem" where
  "log_block_set_flush_bit m log_block val =
     (let field = mach_read_from_4 m (log_block + LOG_BLOCK_HDR_NO);
          field' = (if val then field OR LOG_BLOCK_FLUSH_BIT_MASK
                    else field AND NOT LOG_BLOCK_FLUSH_BIT_MASK)
      in mach_write_to_4 m (log_block + LOG_BLOCK_HDR_NO) field')"

definition log_block_convert_lsn_to_no :: "lsn_t \<Rightarrow> ulint" where
  "log_block_convert_lsn_to_no l = 1 + (l div OS_FILE_LOG_BLOCK_SIZE) mod 2 ^ 31"

definition log_block_init :: "mem \<Rightarrow> ulint \<Rightarrow> lsn_t \<Rightarrow> mem" where
  "log_block_init m log_block l =
     (let m1 = log_block_set_hdr_no m log_block (log_block_convert_lsn_to_no l);
          m2 = log_block_set_data_len m1 log_block LOG_BLOCK_HDR_SIZE
      in log_block_set_first_rec_group m2 log_block 0)"

definition log_block_set_checksum :: "mem \<Rightarrow> ulint \<Rightarrow> ulint \<Rightarrow> mem" where
  "log_block_set_checksum m log_block checksum =
     mach_write_to_4 m (log_block + OS_FILE_LOG_BLOCK_SIZE - LOG_BLOCK_CHECKSUM) checksum"

definition log_block_store_checksum :: "log_consts \<Rightarrow> mem \<Rightarrow> ulint \<Rightarrow> mem" where
  "log_block_store_checksum K m block =
     log_block_set_checksum m block (log_checksum_algorithm K m block)"

subsection \<open>The log group and the log system\<close>

record log_group_t =
  group_id :: ulint
  n_files :: ulint
  file_size :: lsn_t
  space_id :: ulint
  group_lsn :: lsn_t
  lsn_offset :: lsn_t
  archive_space_id :: ulint
  archived_file_no :: lsn_t
  archived_offset :: lsn_t
  checkpoint_buf :: checkpoint_block

text \<open>
  One call of \<^verbatim>\<open>fil_io\<close>, \<^verbatim>\<open>fil_flush\<close> or \<^verbatim>\<open>fil_flush_file_spaces\<close>, in the order
  of the calls. A write of log blocks carries the log buffer and the address of its first
  block; the last argument of \<^verbatim>\<open>fil_io\<close> (the group, or the group plus one for a
  checkpoint write) is the constructor.
\<close>

datatype io_call =
    Write_blocks bool ulint ulint ulint ulint mem ulint
  | Write_file_header bool ulint ulint ulint ulint ulint lsn_t
  | Write_checkpoint bool ulint ulint ulint ulint checkpoint_block
  | Fil_flush ulint
  | Fil_flush_file_spaces

text \<open>The fields of \<^verbatim>\<open>log_t\<close> (the object \<^verbatim>\<open>*log_sys\<close>) that the file reads or writes.\<close>

record log_t =
  lsn :: lsn_t
  buf_free :: ulint
  buf :: mem
  buf_size :: ulint
  max_buf_free :: ulint
  check_flush_or_checkpoint :: bool
  log_groups :: "log_group_t list"
  buf_next_to_write :: ulint
  write_lsn :: lsn_t
  write_end_offset :: ulint
  current_flush_lsn :: lsn_t
  flushed_to_disk_lsn :: lsn_t
  n_pending_flushes :: ulint
  flush_event :: bool
  n_log_ios :: ulint
  log_group_capacity :: lsn_t
  max_modified_age_async :: lsn_t
  max_modified_age_sync :: lsn_t
  max_checkpoint_age_async :: lsn_t
  max_checkpoint_age :: lsn_t
  next_checkpoint_no :: "64 word"
  last_checkpoint_lsn :: lsn_t
  next_checkpoint_lsn :: lsn_t
  n_pending_checkpoint_writes :: ulint
  checkpoint_lock :: bool
  archiving_state :: log_arch_state_t
  archived_lsn :: lsn_t
  next_archived_lsn :: lsn_t
  n_pending_archive_ios :: ulint
  max_archived_lsn_age :: lsn_t
  max_archived_lsn_age_async :: lsn_t
  tracked_lsn :: lsn_t
  is_extending :: bool

text \<open>
  The log system together with the global variables of the server that the file reads
  or writes, and with what it sees of its collaborators: the clock (\<^verbatim>\<open>time(NULL)\<close>),
  the lsn of the oldest dirty page of the buffer pool
  (\<^verbatim>\<open>buf_pool_get_oldest_modification()\<close>, 0 if there is none), the file-name records
  that \<^verbatim>\<open>fil_names_clear\<close> has to repeat, and the calls made to the file layer.
\<close>

record world = log_t +
  log_has_printed_chkp_warning :: bool
  log_last_warning_time :: int
  srv_track_changed_pages :: bool
  srv_thread_concurrency :: ulint
  srv_log_buffer_size :: ulint
  srv_unix_file_flush_method :: srv_unix_flush_t
  srv_log_write_ahead_size :: ulint
  srv_read_only_mode :: bool
  srv_shutdown_state :: srv_shutdown_state_t
  recv_no_ibuf_operations :: bool
  recv_recovery_on :: bool
  time_now :: int
  buf_pool_oldest_modification :: lsn_t
  fil_names_dirty :: "(mem \<times> ulint) option"
  fil_calls :: "io_call list"

subsection \<open>Appending to the log buffer\<close>

definition log_get_tracked_lsn :: "world \<Rightarrow> lsn_t" where
  "log_get_tracked_lsn log = tracked_lsn log"

definition log_buf_pool_get_oldest_modification :: "world \<Rightarrow> lsn_t" where
  "log_buf_pool_get_oldest_modification log =
     (let l = buf_pool_oldest_modification log in if l = 0 then lsn log else l)"

text \<open>
  \<^verbatim>\<open>log_write_low\<close>: one unfolding is one pass through \<^verbatim>\<open>part_loop\<close>. \<open>str\<close> is
  the memory at the pointer \<^verbatim>\<open>str\<close>, so \<^verbatim>\<open>str = str + len\<close> shifts it.
\<close>

partial_function (option) log_write_low :: "mem \<Rightarrow> ulint \<Rightarrow> world \<Rightarrow> world option" where
  "log_write_low str str_len log =
     (let data_len0 = (buf_free log mod OS_FILE_LOG_BLOCK_SIZE) + str_len;
          fits = (data_len0 \<le> OS_FILE_LOG_BLOCK_SIZE - LOG_BLOCK_TRL_SIZE);
          data_len = (if fits then data_len0 else OS_FILE_LOG_BLOCK_SIZE - LOG_BLOCK_TRL_SIZE);
          len = (if fits then str_len
                 else OS_FILE_LOG_BLOCK_SIZE - (buf_free log mod OS_FILE_LOG_BLOCK_SIZE)
                        - LOG_BLOCK_TRL_SIZE);
          b1 = ut_memcpy (buf log) (buf_free log) str len;
          str_len' = str_len - len;
          str' = (\<lambda>i. str (i + len));
          log_block = ut_calc_align_down (buf_free log) OS_FILE_LOG_BLOCK_SIZE;
          b2 = log_block_set_data_len b1 log_block data_len;
          log' =
            (if data_len = OS_FILE_LOG_BLOCK_SIZE - LOG_BLOCK_TRL_SIZE then
               (let b3 = log_block_set_data_len b2 log_block OS_FILE_LOG_BLOCK_SIZE;
                    b4 = log_block_set_checkpoint_no b3 log_block (next_checkpoint_no log);
                    len2 = len + (LOG_BLOCK_HDR_SIZE + LOG_BLOCK_TRL_SIZE);
                    lsn' = lsn log + len2;
                    b5 = log_block_init b4 (log_block + OS_FILE_LOG_BLOCK_SIZE) lsn'
                in log\<lparr>lsn := lsn', buf_free := buf_free log + len2, buf := b5\<rparr>)
             else log\<lparr>lsn := lsn log + len, buf_free := buf_free log + len, buf := b2\<rparr>)
      in if str_len' > 0 then log_write_low str' str_len' log' else Some log')"

text \<open>
  \<^verbatim>\<open>log_close\<close>. Both calls of \<^verbatim>\<open>time(NULL)\<close> read \<open>time_now\<close>, and
  \<^verbatim>\<open>difftime\<close> is the difference of two times in whole seconds.
\<close>

definition log_close :: "world \<Rightarrow> lsn_t \<times> world" where
  "log_close log =
     (let lsn0 = lsn log;
          log_block = ut_calc_align_down (buf_free log) OS_FILE_LOG_BLOCK_SIZE;
          first_rec_group = log_block_get_first_rec_group (buf log) log_block;
          log1 = (if first_rec_group = 0
                  then log\<lparr>buf := log_block_set_first_rec_group (buf log) log_block
                                    (log_block_get_data_len (buf log) log_block)\<rparr>
                  else log);
          log2 = (if buf_free log1 > max_buf_free log1
                  then log1\<lparr>check_flush_or_checkpoint := True\<rparr> else log1);
          log3 = (if srv_track_changed_pages log2
                  then (let tracked_lsn_age = lsn0 - log_get_tracked_lsn log2
                        in if tracked_lsn_age \<ge> log_group_capacity log2
                           then log2\<lparr>srv_track_changed_pages := False\<rparr> else log2)
                  else log2);
          checkpoint_age = lsn0 - last_checkpoint_lsn log3;
          log4 = (if checkpoint_age \<ge> log_group_capacity log3
                    \<and> (\<not> log_has_printed_chkp_warning log3
                         \<or> time_now log3 - log_last_warning_time log3 > 15)
                  then log3\<lparr>log_has_printed_chkp_warning := True,
                            log_last_warning_time := time_now log3\<rparr>
                  else log3)
      in if checkpoint_age \<le> max_modified_age_sync log4 then (lsn0, log4)
         else (let oldest_lsn = buf_pool_oldest_modification log4
               in if oldest_lsn = 0
                     \<or> lsn0 - oldest_lsn > max_modified_age_sync log4
                     \<or> checkpoint_age > max_checkpoint_age_async log4
                  then (lsn0, log4\<lparr>check_flush_or_checkpoint := True\<rparr>)
                  else (lsn0, log4)))"

subsection \<open>Offsets within a log group\<close>

definition log_group_get_capacity :: "log_consts \<Rightarrow> log_group_t \<Rightarrow> lsn_t" where
  "log_group_get_capacity K grp = (file_size grp - LOG_FILE_HDR_SIZE K) * n_files grp"

text \<open>The three offset calculations divide: a zero divisor traps.\<close>

definition log_group_calc_size_offset :: "log_consts \<Rightarrow> lsn_t \<Rightarrow> log_group_t \<Rightarrow> lsn_t option" where
  "log_group_calc_size_offset K offset grp =
     (if file_size grp = 0 then None
      else Some (offset - LOG_FILE_HDR_SIZE K * (1 + offset div file_size grp)))"

definition log_group_calc_real_offset :: "log_consts \<Rightarrow> lsn_t \<Rightarrow> log_group_t \<Rightarrow> lsn_t option" where
  "log_group_calc_real_offset K offset grp =
     (if file_size grp - LOG_FILE_HDR_SIZE K = 0 then None
      else Some (offset + LOG_FILE_HDR_SIZE K
                   * (1 + offset div (file_size grp - LOG_FILE_HDR_SIZE K))))"

definition log_group_calc_lsn_offset :: "log_consts \<Rightarrow> lsn_t \<Rightarrow> log_group_t \<Rightarrow> lsn_t option" where
  "log_group_calc_lsn_offset K l grp =
     do {
       gr_lsn_size_offset \<leftarrow> log_group_calc_size_offset K (lsn_offset grp) grp;
       let gr_lsn = group_lsn grp;
       let group_size = log_group_get_capacity K grp;
       if group_size = 0 then None
       else do {
         let difference = (if l \<ge> gr_lsn then l - gr_lsn
                           else group_size - ((gr_lsn - l) mod group_size));
         let offset = (gr_lsn_size_offset + difference) mod group_size;
         log_group_calc_real_offset K offset grp
       }
     }"

definition log_group_set_fields :: "log_consts \<Rightarrow> log_group_t \<Rightarrow> lsn_t \<Rightarrow> log_group_t option" where
  "log_group_set_fields K grp l =
     do {
       off \<leftarrow> log_group_calc_lsn_offset K l grp;
       Some (grp\<lparr>lsn_offset := off, group_lsn := l\<rparr>)
     }"

subsection \<open>Thresholds and initialisation\<close>

text \<open>
  The \<^verbatim>\<open>while (group)\<close> loop of \<^verbatim>\<open>log_calc_max_ages\<close> over the list of groups; the
  pair is \<^verbatim>\<open>(smallest_capacity, smallest_archive_margin)\<close>.
\<close>

fun log_calc_max_ages_loop ::
  "log_consts \<Rightarrow> log_group_t list \<Rightarrow> lsn_t \<times> lsn_t \<Rightarrow> lsn_t \<times> lsn_t" where
  "log_calc_max_ages_loop K [] acc = acc"
| "log_calc_max_ages_loop K (grp # groups) (smallest_capacity, smallest_archive_margin) =
     (let smallest_capacity' =
            (if log_group_get_capacity K grp < smallest_capacity
             then log_group_get_capacity K grp else smallest_capacity);
          archive_margin = log_group_get_capacity K grp
             - (file_size grp - LOG_FILE_HDR_SIZE K) - LOG_ARCHIVE_EXTRA_MARGIN K;
          smallest_archive_margin' =
            (if archive_margin < smallest_archive_margin
             then archive_margin else smallest_archive_margin)
      in log_calc_max_ages_loop K groups (smallest_capacity', smallest_archive_margin'))"

definition log_calc_max_ages :: "log_consts \<Rightarrow> world \<Rightarrow> bool \<times> world" where
  "log_calc_max_ages K log =
     (let (smallest_capacity0, smallest_archive_margin) =
            log_calc_max_ages_loop K (log_groups log) (LSN_MAX, LSN_MAX);
          smallest_capacity = smallest_capacity0 - smallest_capacity0 div 10;
          free = LOG_CHECKPOINT_FREE_PER_THREAD K * (10 + srv_thread_concurrency log)
                   + LOG_CHECKPOINT_EXTRA_FREE K
      in if free \<ge> smallest_capacity div 2 then (False, log)
         else (let margin0 = smallest_capacity - free;
                   margin = margin0 - margin0 div 10
               in (True, log\<lparr>
                     log_group_capacity := smallest_capacity,
                     max_modified_age_async := margin - margin div LOG_POOL_PREFLUSH_RATIO_ASYNC,
                     max_modified_age_sync := margin - margin div LOG_POOL_PREFLUSH_RATIO_SYNC,
                     max_checkpoint_age_async :=
                       margin - margin div LOG_POOL_CHECKPOINT_RATIO_ASYNC,
                     max_checkpoint_age := margin,
                     max_archived_lsn_age := smallest_archive_margin,
                     max_archived_lsn_age_async := smallest_archive_margin
                       - smallest_archive_margin div LOG_ARCHIVE_RATIO_ASYNC\<rparr>)))"

definition LOG_BUFFER_SIZE :: "log_consts \<Rightarrow> world \<Rightarrow> ulint" where
  "LOG_BUFFER_SIZE K log = srv_log_buffer_size log * UNIV_PAGE_SIZE K"

text \<open>
  \<^verbatim>\<open>log_init\<close> allocates \<^verbatim>\<open>*log_sys\<close> zero-filled and then assigns some of its fields:
  a field that the function does not assign is 0 (or false, or the empty list) below.
  The argument supplies the server globals and the collaborators, which stay as they
  are. A failed \<^verbatim>\<open>ut_a\<close> is \<open>None\<close>.
\<close>

definition log_init :: "log_consts \<Rightarrow> world \<Rightarrow> world option" where
  "log_init K w =
     (if \<not> (LOG_BUFFER_SIZE K w \<ge> 16 * OS_FILE_LOG_BLOCK_SIZE) then None
      else if \<not> (LOG_BUFFER_SIZE K w \<ge> 4 * UNIV_PAGE_SIZE K) then None
      else Some (w\<lparr>
        lsn := LOG_START_LSN K + LOG_BLOCK_HDR_SIZE,
        buf_free := LOG_BLOCK_HDR_SIZE,
        buf := log_block_set_first_rec_group
                 (log_block_init (\<lambda>_. 0) 0 (LOG_START_LSN K)) 0 LOG_BLOCK_HDR_SIZE,
        buf_size := LOG_BUFFER_SIZE K w,
        max_buf_free := LOG_BUFFER_SIZE K w div LOG_BUF_FLUSH_RATIO - LOG_BUF_FLUSH_MARGIN K,
        check_flush_or_checkpoint := True,
        log_groups := [],
        buf_next_to_write := 0,
        write_lsn := LOG_START_LSN K,
        write_end_offset := 0,
        current_flush_lsn := 0,
        flushed_to_disk_lsn := 0,
        n_pending_flushes := 0,
        flush_event := True,
        n_log_ios := 0,
        log_group_capacity := 0,
        max_modified_age_async := 0,
        max_modified_age_sync := 0,
        max_checkpoint_age_async := 0,
        max_checkpoint_age := 0,
        next_checkpoint_no := 0,
        last_checkpoint_lsn := LOG_START_LSN K,
        next_checkpoint_lsn := 0,
        n_pending_checkpoint_writes := 0,
        checkpoint_lock := False,
        archiving_state := LOG_ARCH_OFF,
        archived_lsn := LOG_START_LSN K,
        next_archived_lsn := 0,
        n_pending_archive_ios := 0,
        max_archived_lsn_age := 0,
        max_archived_lsn_age_async := 0,
        tracked_lsn := 0,
        is_extending := False\<rparr>))"

text \<open>
  \<^verbatim>\<open>log_group_init\<close>: the new group's checkpoint buffer is zero-filled memory.
\<close>

definition zero_checkpoint_block :: checkpoint_block where
  "zero_checkpoint_block =
     \<lparr>cp_checkpoint_no = 0, cp_checkpoint_lsn = 0, cp_offset_low32 = 0,
      cp_offset_high32 = 0, cp_log_buf_size = 0, cp_archived_lsn = 0,
      cp_group_info = (\<lambda>_. 0), cp_checksum_1 = 0, cp_checksum_2 = 0\<rparr>"

definition log_group_init ::
  "log_consts \<Rightarrow> ulint \<Rightarrow> ulint \<Rightarrow> lsn_t \<Rightarrow> ulint \<Rightarrow> ulint \<Rightarrow> world \<Rightarrow> bool \<times> world" where
  "log_group_init K id' n_files' file_size' space_id' archive_space_id' log =
     (let grp = \<lparr>group_id = id', n_files = n_files', file_size = file_size',
                   space_id = space_id', group_lsn = LOG_START_LSN K,
                   lsn_offset = LOG_FILE_HDR_SIZE K, archive_space_id = archive_space_id',
                   archived_file_no = LOG_START_LSN K, archived_offset = 0,
                   checkpoint_buf = zero_checkpoint_block\<rparr>
      in log_calc_max_ages K (log\<lparr>log_groups := log_groups log @ [grp]\<rparr>))"

subsection \<open>Writing the log buffer to the log files\<close>

text \<open>
  \<^verbatim>\<open>log_sys_write_completion\<close>; \<^verbatim>\<open>ut_memmove(log_sys->buf, log_sys->buf + move_start,
  move_end - move_start)\<close> has destination offset 0.
\<close>

definition log_sys_write_completion :: "world \<Rightarrow> world" where
  "log_sys_write_completion log =
     (let log1 = log\<lparr>write_lsn := lsn log, buf_next_to_write := write_end_offset log\<rparr>
      in if write_end_offset log1 > max_buf_free log1 div 2 then
           (let move_start = ut_calc_align_down (write_end_offset log1) OS_FILE_LOG_BLOCK_SIZE;
                move_end = ut_calc_align (buf_free log1) OS_FILE_LOG_BLOCK_SIZE
            in log1\<lparr>buf := ut_memmove (buf log1) 0 move_start (move_end - move_start),
                    buf_free := buf_free log1 - move_start,
                    buf_next_to_write := buf_next_to_write log1 - move_start\<rparr>)
         else log1)"

definition log_group_file_header_flush ::
  "log_consts \<Rightarrow> log_group_t \<Rightarrow> ulint \<Rightarrow> lsn_t \<Rightarrow> world \<Rightarrow> world option" where
  "log_group_file_header_flush K grp nth_file start_lsn log =
     (if \<not> nth_file < n_files grp then None
      else if UNIV_PAGE_SIZE K = 0 then None
      else (let dest_offset = nth_file * file_size grp;
                page_no = dest_offset div UNIV_PAGE_SIZE K
            in Some (log\<lparr>n_log_ios := n_log_ios log + 1,
                         fil_calls := fil_calls log @
                           [Write_file_header True (space_id grp) page_no
                              (dest_offset mod UNIV_PAGE_SIZE K) OS_FILE_LOG_BLOCK_SIZE
                              (group_id grp) start_lsn]\<rparr>)))"

text \<open>
  \<^verbatim>\<open>log_group_write_buf\<close>: the two \<^verbatim>\<open>ut_a\<close> at its entry, then its \<^verbatim>\<open>loop\<close>.
  \<open>bufp\<close> is the offset of the argument \<^verbatim>\<open>buf\<close> in the log buffer.
\<close>

partial_function (option) log_group_write_buf_loop ::
  "log_consts \<Rightarrow> log_group_t \<Rightarrow> ulint \<Rightarrow> ulint \<Rightarrow> lsn_t \<Rightarrow> bool \<Rightarrow> world \<Rightarrow> world option" where
  "log_group_write_buf_loop K grp bufp len start_lsn write_header log =
     (if len = 0 then Some log
      else
        (case log_group_calc_lsn_offset K start_lsn grp of
           None \<Rightarrow> None
         | Some next_offset \<Rightarrow>
            (case (if write_header \<and> next_offset mod file_size grp = LOG_FILE_HDR_SIZE K
                   then log_group_file_header_flush K grp (next_offset div file_size grp)
                          start_lsn log
                   else Some log) of
               None \<Rightarrow> None
             | Some log1 \<Rightarrow>
                (let write_len =
                       (if (next_offset mod file_size grp) + len > file_size grp
                        then file_size grp - (next_offset mod file_size grp) else len);
                     b = fold (\<lambda>i m. log_block_store_checksum K m
                                        (bufp + of_nat i * OS_FILE_LOG_BLOCK_SIZE))
                           [0..<unat (write_len div OS_FILE_LOG_BLOCK_SIZE)] (buf log1)
                 in if UNIV_PAGE_SIZE K = 0 then None
                    else
                      (let log2 = log1\<lparr>buf := b, n_log_ios := n_log_ios log1 + 1,
                                    fil_calls := fil_calls log1 @
                                      [Write_blocks True (space_id grp)
                                         (next_offset div UNIV_PAGE_SIZE K)
                                         (next_offset mod UNIV_PAGE_SIZE K) write_len b bufp]\<rparr>
                       in if write_len < len
                          then log_group_write_buf_loop K grp (bufp + write_len)
                                 (len - write_len) (start_lsn + write_len) True log2
                          else Some log2)))))"

definition log_group_write_buf ::
  "log_consts \<Rightarrow> log_group_t \<Rightarrow> ulint \<Rightarrow> ulint \<Rightarrow> lsn_t \<Rightarrow> ulint \<Rightarrow> world \<Rightarrow> world option" where
  "log_group_write_buf K grp bufp len start_lsn new_data_offset log =
     (if len mod OS_FILE_LOG_BLOCK_SIZE \<noteq> 0 then None
      else if start_lsn mod OS_FILE_LOG_BLOCK_SIZE \<noteq> 0 then None
      else log_group_write_buf_loop K grp bufp len start_lsn (new_data_offset = 0) log)"

text \<open>
  \<^verbatim>\<open>log_write_up_to\<close> outside \<^verbatim>\<open>_WIN32\<close>, in four parts. \<open>log_write_up_to_pad\<close> is
  the block under \<^verbatim>\<open>Calculate pad_size if needed\<close>: it returns \<^verbatim>\<open>pad_size\<close> and the
  state. \<open>log_write_up_to_flush\<close> is the function from the \<^verbatim>\<open>#ifndef _WIN32\<close> that
  follows the call of \<^verbatim>\<open>log_sys_write_completion\<close> to its end.
  \<open>log_write_up_to_write\<close> is the function from the declaration of \<^verbatim>\<open>group\<close> to its
  end: the write of the buffer and, if asked for, the flush. \<open>log_write_up_to\<close> is the
  function from its entry to there, with the \<^verbatim>\<open>goto loop\<close>. \<^verbatim>\<open>os_event_wait\<close> changes
  nothing by itself and no other thread runs, so the retry after a wait is a call with
  the same state. An empty list of groups is a NULL \<^verbatim>\<open>group\<close>.
\<close>

definition log_write_up_to_pad ::
  "log_consts \<Rightarrow> log_group_t \<Rightarrow> ulint \<Rightarrow> ulint \<Rightarrow> world \<Rightarrow> (ulint \<times> world) option" where
  "log_write_up_to_pad K grp area_start area_end log1 =
     (let write_ahead_size = srv_log_write_ahead_size log1
      in if write_ahead_size > OS_FILE_LOG_BLOCK_SIZE then
           (case log_group_calc_lsn_offset K
                   (ut_uint64_align_up (lsn log1) OS_FILE_LOG_BLOCK_SIZE) grp of
              None \<Rightarrow> None
            | Some end_offset' \<Rightarrow>
               (let end_offset_in_unit = end_offset' mod write_ahead_size
                in if end_offset_in_unit > 0
                      \<and> (area_end - area_start) > end_offset_in_unit
                   then
                     (let pad_size0 = write_ahead_size - end_offset_in_unit;
                          pad_size =
                            (if area_end + pad_size0 > buf_size log1
                             then buf_size log1 - area_end else pad_size0)
                      in Some (pad_size,
                           log1\<lparr>buf := memset (buf log1) area_end 0 pad_size\<rparr>))
                   else Some (0, log1)))
         else Some (0, log1))"

definition log_write_up_to_flush :: "bool \<Rightarrow> world \<Rightarrow> world option" where
  "log_write_up_to_flush flush_to_disk log5 =
     (let log6 =
            (if srv_unix_file_flush_method log5 = SRV_UNIX_O_DSYNC
                \<or> srv_unix_file_flush_method log5 = SRV_UNIX_ALL_O_DIRECT
             then log5\<lparr>flushed_to_disk_lsn := write_lsn log5\<rparr>
             else log5)
      in if \<not> flush_to_disk then Some log6
         else if n_pending_flushes log6 \<noteq> 1 then None
         else
           (let do_flush = (srv_unix_file_flush_method log6 \<noteq> SRV_UNIX_O_DSYNC)
            in case (if do_flush
                     then (case log_groups log6 of
                             [] \<Rightarrow> None
                           | grp # groups \<Rightarrow>
                               Some (log6\<lparr>
                                 flushed_to_disk_lsn := current_flush_lsn log6,
                                 fil_calls := fil_calls log6 @ [Fil_flush (space_id grp)]\<rparr>))
                     else Some log6) of
                 None \<Rightarrow> None
               | Some log7 \<Rightarrow>
                   Some (log7\<lparr>n_pending_flushes := n_pending_flushes log7 - 1,
                              flush_event := True\<rparr>)))"

definition log_write_up_to_write :: "log_consts \<Rightarrow> bool \<Rightarrow> world \<Rightarrow> world option" where
  "log_write_up_to_write K flush_to_disk log0 =
     (let log = (if flush_to_disk
                 then log0\<lparr>n_pending_flushes := n_pending_flushes log0 + 1,
                           current_flush_lsn := lsn log0, flush_event := False\<rparr>
                 else log0)
      in case log_groups log of
           [] \<Rightarrow> None
         | grp # groups \<Rightarrow>
            (let start_offset = buf_next_to_write log;
                 end_offset = buf_free log;
                 area_start = ut_calc_align_down start_offset OS_FILE_LOG_BLOCK_SIZE;
                 area_end = ut_calc_align end_offset OS_FILE_LOG_BLOCK_SIZE;
                 b1 = log_block_set_flush_bit (buf log) area_start True;
                 b2 = log_block_set_checkpoint_no b1 (area_end - OS_FILE_LOG_BLOCK_SIZE)
                        (next_checkpoint_no log);
                 log1 = log\<lparr>buf := b2\<rparr>
             in
               (case log_write_up_to_pad K grp area_start area_end log1 of
                  None \<Rightarrow> None
                | Some (pad_size, log2) \<Rightarrow>
                   (case log_group_write_buf K grp area_start
                           (area_end - area_start + pad_size)
                           (ut_uint64_align_down (write_lsn log2) OS_FILE_LOG_BLOCK_SIZE)
                           (start_offset - area_start) log2 of
                      None \<Rightarrow> None
                    | Some log3 \<Rightarrow>
                       (let log4 = log3\<lparr>write_end_offset := buf_free log3\<rparr>
                        in case log_group_set_fields K grp (write_lsn log4) of
                             None \<Rightarrow> None
                           | Some grp' \<Rightarrow>
                               log_write_up_to_flush flush_to_disk
                                 (log_sys_write_completion
                                    (log4\<lparr>log_groups := grp' # groups\<rparr>)))))))"

partial_function (option) log_write_up_to ::
  "log_consts \<Rightarrow> lsn_t \<Rightarrow> bool \<Rightarrow> world \<Rightarrow> world option" where
  "log_write_up_to K l flush_to_disk log =
     (if recv_no_ibuf_operations log then Some log
      else if \<not> flush_to_disk \<and> write_lsn log \<ge> l then Some log
      else if (if flush_to_disk then flushed_to_disk_lsn log else write_lsn log) \<ge> l
      then Some log
      else if flush_to_disk \<and> (n_pending_flushes log > 0 \<or> \<not> flush_event log) then
        (if current_flush_lsn log \<ge> l then Some log
         else log_write_up_to K l flush_to_disk log)
      else if \<not> flush_to_disk \<and> buf_free log = buf_next_to_write log then Some log
      else log_write_up_to_write K flush_to_disk log)"

definition log_buffer_flush_to_disk :: "log_consts \<Rightarrow> world \<Rightarrow> world option" where
  "log_buffer_flush_to_disk K log = log_write_up_to K (lsn log) True log"

subsection \<open>Checkpoints\<close>

definition log_complete_checkpoint :: "world \<Rightarrow> world" where
  "log_complete_checkpoint log =
     log\<lparr>next_checkpoint_no := next_checkpoint_no log + 1,
         last_checkpoint_lsn := next_checkpoint_lsn log,
         checkpoint_lock := False\<rparr>"

definition log_io_complete_checkpoint :: "world \<Rightarrow> world" where
  "log_io_complete_checkpoint log =
     (let log1 = log\<lparr>n_pending_checkpoint_writes := n_pending_checkpoint_writes log - 1\<rparr>
      in if n_pending_checkpoint_writes log1 = 0 then log_complete_checkpoint log1 else log1)"

text \<open>
  \<^verbatim>\<open>log_group_checkpoint\<close> for the group at position \<open>i\<close> of the list of groups.
  \<open>log_group_checkpoint_buf\<close> is the content that it gives to the checkpoint buffer of
  the group, from the offset of the checkpoint lsn in the group;
  \<^verbatim>\<open>mach_write_to_4\<close> stores the low 32 bits of its argument. The write is
  asynchronous: its completion is \<open>log_io_complete_checkpoint\<close>, run by the i/o handler.
\<close>

definition log_group_checkpoint_buf ::
  "log_consts \<Rightarrow> world \<Rightarrow> log_group_t \<Rightarrow> lsn_t \<Rightarrow> checkpoint_block" where
  "log_group_checkpoint_buf K log grp lsn_offset' =
     (let archived_lsn' = (if archiving_state log = LOG_ARCH_OFF then LSN_MAX
                           else archived_lsn log);
          b0 = (checkpoint_buf grp)\<lparr>
                 cp_checkpoint_no := next_checkpoint_no log,
                 cp_checkpoint_lsn := next_checkpoint_lsn log,
                 cp_offset_low32 := take_bit 32 (lsn_offset' AND 0xFFFFFFFF),
                 cp_offset_high32 := take_bit 32 (drop_bit 32 lsn_offset'),
                 cp_log_buf_size := take_bit 32 (buf_size log),
                 cp_archived_lsn := archived_lsn',
                 cp_group_info :=
                   fold (\<lambda>group2 f. f(group_id group2 := archived_file_no group2))
                     (log_groups log) (\<lambda>_. 0)\<rparr>;
          b1 = b0\<lparr>cp_checksum_1 := take_bit 32 (ut_fold_checkpoint_1 K b0)\<rparr>
      in b1\<lparr>cp_checksum_2 := take_bit 32 (ut_fold_checkpoint_2 K b1)\<rparr>)"

definition log_group_checkpoint :: "log_consts \<Rightarrow> nat \<Rightarrow> world \<Rightarrow> world option" where
  "log_group_checkpoint K i log =
     (if i \<ge> length (log_groups log) then None
      else
        (let grp = log_groups log ! i
         in case log_group_calc_lsn_offset K (next_checkpoint_lsn log) grp of
              None \<Rightarrow> None
            | Some lsn_offset' \<Rightarrow>
               (let b = log_group_checkpoint_buf K log grp lsn_offset';
                    log1 = log\<lparr>log_groups := (log_groups log)[i := grp\<lparr>checkpoint_buf := b\<rparr>],
                              n_log_ios := n_log_ios log + 1\<rparr>;
                    log2 = (if n_pending_checkpoint_writes log1 = 0
                            then log1\<lparr>checkpoint_lock := True\<rparr> else log1);
                    log3 = log2\<lparr>n_pending_checkpoint_writes :=
                                  n_pending_checkpoint_writes log2 + 1\<rparr>
                in Some (log3\<lparr>fil_calls := fil_calls log3 @
                           [Write_checkpoint False (space_id grp) 0
                              (if next_checkpoint_no log3 AND 1 \<noteq> 0
                               then LOG_CHECKPOINT_2 K else LOG_CHECKPOINT_1 K)
                              OS_FILE_LOG_BLOCK_SIZE b]\<rparr>))))"

text \<open>
  \<^verbatim>\<open>log_write_checkpoint_info\<close>. With \<^verbatim>\<open>sync\<close> the caller then waits on
  \<^verbatim>\<open>checkpoint_lock\<close> until the i/o handler has completed the write; the wait changes
  nothing by itself.
\<close>

definition log_write_checkpoint_info :: "log_consts \<Rightarrow> bool \<Rightarrow> world \<Rightarrow> world option" where
  "log_write_checkpoint_info K sync log =
     (if \<not> srv_read_only_mode log
      then fold (\<lambda>i r. Option.bind r (log_group_checkpoint K i))
             [0..<length (log_groups log)] (Some log)
      else Some log)"

text \<open>
  Modelled from the spec: \<^verbatim>\<open>fil_names_clear\<close> (\<^verbatim>\<open>fil0fil.cc\<close>) is not among the
  available sources. By section 4.6, step 4, it emits the file-name records that have to
  be repeated after the checkpoint and the checkpoint marker for the given lsn, and says
  whether anything was appended; the records go through \<open>log_write_low\<close> and
  \<open>log_close\<close>, as every record of a mini-transaction does (section 2). A marker is
  written when the caller asks for it or when file-name records were written.
\<close>

definition fil_names_clear ::
  "log_consts \<Rightarrow> lsn_t \<Rightarrow> bool \<Rightarrow> world \<Rightarrow> (bool \<times> world) option" where
  "fil_names_clear K l do_write log =
     (case fil_names_dirty log of
        Some (names, names_len) \<Rightarrow>
          (case log_write_low names names_len log of
             None \<Rightarrow> None
           | Some log1 \<Rightarrow>
              (case log_write_low (mlog_checkpoint_rec K l) (SIZE_OF_MLOG_CHECKPOINT K) log1 of
                 None \<Rightarrow> None
               | Some log2 \<Rightarrow> Some (True, snd (log_close log2))))
      | None \<Rightarrow>
          (if do_write
           then (case log_write_low (mlog_checkpoint_rec K l) (SIZE_OF_MLOG_CHECKPOINT K) log of
                   None \<Rightarrow> None
                 | Some log2 \<Rightarrow> Some (True, snd (log_close log2)))
           else Some (False, log)))"

text \<open>
  \<^verbatim>\<open>log_checkpoint\<close>. \<^verbatim>\<open>recv_apply_hashed_log_recs\<close> belongs to recovery and touches
  nothing of this model. The wait on \<^verbatim>\<open>checkpoint_lock\<close> under \<^verbatim>\<open>sync\<close> changes nothing
  by itself.
\<close>

definition log_checkpoint ::
  "log_consts \<Rightarrow> bool \<Rightarrow> bool \<Rightarrow> world \<Rightarrow> (bool \<times> world) option" where
  "log_checkpoint K sync write_always log0 =
     (let log = (case srv_unix_file_flush_method log0 of
                   SRV_UNIX_NOSYNC \<Rightarrow> log0
                 | SRV_UNIX_ALL_O_DIRECT \<Rightarrow> log0
                 | _ \<Rightarrow> log0\<lparr>fil_calls := fil_calls log0 @ [Fil_flush_file_spaces]\<rparr>);
          oldest_lsn = log_buf_pool_get_oldest_modification log
      in if \<not> write_always
            \<and> oldest_lsn = last_checkpoint_lsn log + SIZE_OF_MLOG_CHECKPOINT K
         then Some (True, log)
         else
           (let flush_lsn0 = oldest_lsn;
                do_write = (srv_shutdown_state log = SRV_SHUTDOWN_NONE \<or> flush_lsn0 \<noteq> lsn log)
            in case fil_names_clear K flush_lsn0 do_write log of
                 None \<Rightarrow> None
               | Some (cleared, log1) \<Rightarrow>
                  (let flush_lsn = (if cleared then lsn log1 else flush_lsn0)
                   in case log_write_up_to K flush_lsn True log1 of
                        None \<Rightarrow> None
                      | Some log2 \<Rightarrow>
                         (if \<not> write_always \<and> last_checkpoint_lsn log2 \<ge> oldest_lsn
                          then Some (True, log2)
                          else if n_pending_checkpoint_writes log2 > 0 then Some (False, log2)
                          else
                            (case log_write_checkpoint_info K sync
                                    (log2\<lparr>next_checkpoint_lsn := oldest_lsn\<rparr>) of
                               None \<Rightarrow> None
                             | Some log3 \<Rightarrow> Some (True, log3))))))"

subsection \<open>The threshold derivation in the words of the spec\<close>

text \<open>
  Section 4.5 of the spec derives the thresholds from \<open>C\<close>, the smallest group capacity,
  and from \<open>reserve\<close>, the per-thread reserve times the number of threads plus ten, plus
  the extra reserve; it lets the initialisation fail if \<open>reserve \<ge> C / 2\<close>. These
  definitions follow those words, for the comparison with \<open>log_calc_max_ages\<close>.
\<close>

definition smallest_group_capacity :: "log_consts \<Rightarrow> world \<Rightarrow> lsn_t" where
  "smallest_group_capacity K log =
     Min (set (LSN_MAX # map (log_group_get_capacity K) (log_groups log)))"

definition checkpoint_reserve :: "log_consts \<Rightarrow> world \<Rightarrow> ulint" where
  "checkpoint_reserve K log =
     LOG_CHECKPOINT_FREE_PER_THREAD K * (srv_thread_concurrency log + 10)
       + LOG_CHECKPOINT_EXTRA_FREE K"

definition spec_init_fails :: "log_consts \<Rightarrow> world \<Rightarrow> bool" where
  "spec_init_fails K log = (checkpoint_reserve K log \<ge> smallest_group_capacity K log div 2)"

subsection \<open>Concrete values\<close>

text \<open>
  The values that InnoDB customarily gives to the constants: a page of 16 KiB, a file
  header of four blocks with the checkpoint slots in its second and fourth block, a
  start lsn of sixteen blocks and a checkpoint marker of nine bytes. The checksums and
  the bytes of the marker are immaterial here.
\<close>

definition innodb_consts :: log_consts where
  "innodb_consts =
     \<lparr>UNIV_PAGE_SIZE = 16384, LOG_FILE_HDR_SIZE = 2048, LOG_START_LSN = 8192,
      LOG_CHECKPOINT_1 = 512, LOG_CHECKPOINT_2 = 1536, SIZE_OF_MLOG_CHECKPOINT = 9,
      log_checksum_algorithm = (\<lambda>m block. 0),
      ut_fold_checkpoint_1 = (\<lambda>b. 0), ut_fold_checkpoint_2 = (\<lambda>b. 0),
      mlog_checkpoint_rec = (\<lambda>l i. 0)\<rparr>"

text \<open>
  A server before \<open>log_init\<close>: a log buffer of 512 pages, no thread-concurrency limit,
  \<^verbatim>\<open>fsync\<close> as flush method, no dirty page, no file-name record to repeat.
\<close>

definition server_start :: world where
  "server_start =
     \<lparr>lsn = 0, buf_free = 0, buf = (\<lambda>_. 0), buf_size = 0, max_buf_free = 0,
      check_flush_or_checkpoint = False, log_groups = [], buf_next_to_write = 0,
      write_lsn = 0, write_end_offset = 0, current_flush_lsn = 0, flushed_to_disk_lsn = 0,
      n_pending_flushes = 0, flush_event = False, n_log_ios = 0, log_group_capacity = 0,
      max_modified_age_async = 0, max_modified_age_sync = 0, max_checkpoint_age_async = 0,
      max_checkpoint_age = 0, next_checkpoint_no = 0, last_checkpoint_lsn = 0,
      next_checkpoint_lsn = 0, n_pending_checkpoint_writes = 0, checkpoint_lock = False,
      archiving_state = LOG_ARCH_OFF, archived_lsn = 0, next_archived_lsn = 0,
      n_pending_archive_ios = 0, max_archived_lsn_age = 0, max_archived_lsn_age_async = 0,
      tracked_lsn = 0, is_extending = False,
      log_has_printed_chkp_warning = False, log_last_warning_time = 0,
      srv_track_changed_pages = False, srv_thread_concurrency = 0,
      srv_log_buffer_size = 512, srv_unix_file_flush_method = SRV_UNIX_FSYNC,
      srv_log_write_ahead_size = 8192, srv_read_only_mode = False,
      srv_shutdown_state = SRV_SHUTDOWN_NONE, recv_no_ibuf_operations = False,
      recv_recovery_on = False, time_now = 0, buf_pool_oldest_modification = 0,
      fil_names_dirty = None, fil_calls = []\<rparr>"

text \<open>A log group of two files of 48 MiB each.\<close>

definition two_files :: log_group_t where
  "two_files =
     \<lparr>group_id = 0, n_files = 2, file_size = 50331648, space_id = 4294967280,
      group_lsn = 8192, lsn_offset = 2048, archive_space_id = 0,
      archived_file_no = 8192, archived_offset = 0,
      checkpoint_buf = zero_checkpoint_block\<rparr>"

text \<open>A server whose only log group has two files of 802048 bytes.\<close>

definition small_log :: world where
  "small_log = server_start\<lparr>log_groups := [two_files\<lparr>file_size := 802048\<rparr>]\<rparr>"

text \<open>A server whose only log group is \<open>two_files\<close>.\<close>

definition big_log :: world where
  "big_log = server_start\<lparr>log_groups := [two_files]\<rparr>"

text \<open>The log system right after \<open>log_init\<close>, and after the registration of one group.\<close>

definition fresh_log :: world where
  "fresh_log = (case log_init innodb_consts server_start of Some w \<Rightarrow> w | None \<Rightarrow> server_start)"

definition fresh_group_log :: world where
  "fresh_group_log = snd (log_group_init innodb_consts 0 2 50331648 4294967280 0 fresh_log)"

text \<open>A log buffer written up to the offset 5000000, past half of \<open>max_buf_free\<close>.\<close>

definition full_buffer :: world where
  "full_buffer = fresh_log\<lparr>buf_free := 5000000, write_end_offset := 5000000\<rparr>"

subsection \<open>One pass through the loop of \<open>log_write_low\<close>\<close>

text \<open>
  The two states that one pass through \<^verbatim>\<open>part_loop\<close> can lead to, named for the proofs:
  \<open>len\<close> bytes are appended and the current block still has room, or \<open>len\<close> bytes fill
  the current block and the next block is initialised.
\<close>

definition append_in_block :: "mem \<Rightarrow> ulint \<Rightarrow> world \<Rightarrow> world" where
  "append_in_block str len log =
     log\<lparr>lsn := lsn log + len,
         buf_free := buf_free log + len,
         buf := log_block_set_data_len (ut_memcpy (buf log) (buf_free log) str len)
                  (ut_calc_align_down (buf_free log) OS_FILE_LOG_BLOCK_SIZE)
                  (buf_free log mod OS_FILE_LOG_BLOCK_SIZE + len)\<rparr>"

definition fill_block :: "mem \<Rightarrow> ulint \<Rightarrow> world \<Rightarrow> world" where
  "fill_block str len log =
     log\<lparr>lsn := lsn log + (len + (LOG_BLOCK_HDR_SIZE + LOG_BLOCK_TRL_SIZE)),
         buf_free := buf_free log + (len + (LOG_BLOCK_HDR_SIZE + LOG_BLOCK_TRL_SIZE)),
         buf := log_block_init
                  (log_block_set_checkpoint_no
                     (log_block_set_data_len
                        (log_block_set_data_len (ut_memcpy (buf log) (buf_free log) str len)
                           (ut_calc_align_down (buf_free log) OS_FILE_LOG_BLOCK_SIZE)
                           (OS_FILE_LOG_BLOCK_SIZE - LOG_BLOCK_TRL_SIZE))
                        (ut_calc_align_down (buf_free log) OS_FILE_LOG_BLOCK_SIZE)
                        OS_FILE_LOG_BLOCK_SIZE)
                     (ut_calc_align_down (buf_free log) OS_FILE_LOG_BLOCK_SIZE)
                     (next_checkpoint_no log))
                  (ut_calc_align_down (buf_free log) OS_FILE_LOG_BLOCK_SIZE
                     + OS_FILE_LOG_BLOCK_SIZE)
                  (lsn log + (len + (LOG_BLOCK_HDR_SIZE + LOG_BLOCK_TRL_SIZE)))\<rparr>"

subsection \<open>An append that crosses a block boundary\<close>

text \<open>
  The fresh log after a mini-transaction of 480 bytes \<^verbatim>\<open>0x41\<close>: its buffer ends 480 bytes
  into the payload of the first block. Then a mini-transaction of 100 bytes \<^verbatim>\<open>0x42\<close> is
  appended and closed; \<open>crossing_first_rec_group\<close> is the first-rec-group offset of the
  second block afterwards and \<open>crossing_byte a\<close> the byte at the offset \<open>a\<close> of the buffer.
\<close>

definition appended_480 :: world where
  "appended_480 =
     (case log_write_low (\<lambda>_. 0x41) 480 fresh_log of
        Some log \<Rightarrow> snd (log_close log)
      | None \<Rightarrow> fresh_log)"

definition crossing_run :: "(lsn_t \<times> world) option" where
  "crossing_run = map_option log_close (log_write_low (\<lambda>_. 0x42) 100 appended_480)"

definition crossing_first_rec_group :: "ulint option" where
  "crossing_first_rec_group =
     map_option (\<lambda>r. log_block_get_first_rec_group (buf (snd r)) OS_FILE_LOG_BLOCK_SIZE)
       crossing_run"

definition crossing_byte :: "ulint \<Rightarrow> byte option" where
  "crossing_byte a = map_option (\<lambda>r. buf (snd r) a) crossing_run"

subsection \<open>Runs of the log system\<close>

text \<open>Property P1 of the spec: the order of the three lsns.\<close>

definition lsn_order :: "world \<Rightarrow> bool" where
  "lsn_order log = (flushed_to_disk_lsn log \<le> write_lsn log \<and> write_lsn log \<le> lsn log)"

text \<open>
  A call of one of the functions that change the log system, with its arguments, or a
  change of what surrounds the log system: the server globals, the clock, the buffer
  pool and the file layer, which are the fields that \<open>world\<close> adds to \<open>log_t\<close>.
\<close>

datatype log_call =
    Call_log_group_init ulint ulint lsn_t ulint ulint
  | Call_log_write_low mem ulint
  | Call_log_close
  | Call_log_sys_write_completion
  | Call_log_write_up_to lsn_t bool
  | Call_log_buffer_flush_to_disk
  | Call_log_checkpoint bool bool
  | Call_log_io_complete_checkpoint
  | Surroundings "unit world_ext"

fun log_step :: "log_consts \<Rightarrow> log_call \<Rightarrow> world \<Rightarrow> world option" where
  "log_step K (Call_log_group_init id' n_files' file_size' space_id' archive_space_id') log =
     Some (snd (log_group_init K id' n_files' file_size' space_id' archive_space_id' log))"
| "log_step K (Call_log_write_low str str_len) log = log_write_low str str_len log"
| "log_step K Call_log_close log = Some (snd (log_close log))"
| "log_step K Call_log_sys_write_completion log = Some (log_sys_write_completion log)"
| "log_step K (Call_log_write_up_to l flush_to_disk) log = log_write_up_to K l flush_to_disk log"
| "log_step K Call_log_buffer_flush_to_disk log = log_buffer_flush_to_disk K log"
| "log_step K (Call_log_checkpoint sync write_always) log =
     map_option snd (log_checkpoint K sync write_always log)"
| "log_step K Call_log_io_complete_checkpoint log = Some (log_io_complete_checkpoint log)"
| "log_step K (Surroundings e) log = Some (log_t.more_update (\<lambda>_. e) log)"

text \<open>
  The states that a list of calls goes through, the first one included; \<open>None\<close> if one
  of the calls does not return.
\<close>

fun log_run :: "log_consts \<Rightarrow> log_call list \<Rightarrow> world \<Rightarrow> world list option" where
  "log_run K [] log = Some [log]"
| "log_run K (c # cs) log =
     (case log_step K c log of
        None \<Rightarrow> None
      | Some log' \<Rightarrow> map_option ((#) log) (log_run K cs log'))"

text \<open>
  A mini-transaction of 100 bytes, a flush to disk, and what the first group of a log of
  two files of 48 MiB goes through.
\<close>

definition short_run :: "log_call list" where
  "short_run =
     [Call_log_group_init 0 2 50331648 4294967280 0,
      Call_log_write_low (\<lambda>_. 0x41) 100,
      Call_log_close,
      Call_log_write_up_to 8304 True]"

subsection \<open>The checkpoint state and the checkpoint writes\<close>

text \<open>
  The checkpoint writes among the calls made to the file layer: the byte offset in the
  first log file (the slot) and the block written.
\<close>

fun checkpoint_writes :: "io_call list \<Rightarrow> (ulint \<times> checkpoint_block) list" where
  "checkpoint_writes [] = []"
| "checkpoint_writes (Write_checkpoint sync space page_no byte_offset len b # cs) =
     (byte_offset, b) # checkpoint_writes cs"
| "checkpoint_writes (Write_blocks sync space page_no byte_offset len b bufp # cs) =
     checkpoint_writes cs"
| "checkpoint_writes (Write_file_header sync space page_no byte_offset len g l # cs) =
     checkpoint_writes cs"
| "checkpoint_writes (Fil_flush space # cs) = checkpoint_writes cs"
| "checkpoint_writes (Fil_flush_file_spaces # cs) = checkpoint_writes cs"

text \<open>
  The checkpoint state of the log system: the checkpoint fields of \<^verbatim>\<open>log_t\<close>, the
  checkpoint buffers of the groups, and the checkpoint writes issued so far.
\<close>

definition checkpoint_state ::
  "world \<Rightarrow> 64 word \<times> lsn_t \<times> lsn_t \<times> ulint \<times> bool \<times> checkpoint_block list
             \<times> (ulint \<times> checkpoint_block) list" where
  "checkpoint_state log =
     (next_checkpoint_no log, next_checkpoint_lsn log, last_checkpoint_lsn log,
      n_pending_checkpoint_writes log, checkpoint_lock log,
      map checkpoint_buf (log_groups log), checkpoint_writes (fil_calls log))"

text \<open>
  One checkpoint after a mini-transaction of 100 bytes \<^verbatim>\<open>0x41\<close> that changes the lsn:
  the record is appended and closed, \<open>log_checkpoint\<close> writes the checkpoint, and the i/o
  handler completes the write. \<open>checkpoint_rounds\<close> does this \<open>n\<close> times.
\<close>

definition checkpoint_round :: "log_consts \<Rightarrow> world \<Rightarrow> world option" where
  "checkpoint_round K log =
     (case log_write_low (\<lambda>_. 0x41) 100 log of
        None \<Rightarrow> None
      | Some log1 \<Rightarrow>
         (case log_checkpoint K True False (snd (log_close log1)) of
            None \<Rightarrow> None
          | Some (r, log2) \<Rightarrow> Some (log_io_complete_checkpoint log2)))"

fun checkpoint_rounds :: "log_consts \<Rightarrow> nat \<Rightarrow> world \<Rightarrow> world option" where
  "checkpoint_rounds K 0 log = Some log"
| "checkpoint_rounds K (Suc n) log =
     (case checkpoint_round K log of
        None \<Rightarrow> None
      | Some log' \<Rightarrow> checkpoint_rounds K n log')"

text \<open>The log with one group after a mini-transaction of 100 bytes \<^verbatim>\<open>0x41\<close>.\<close>

definition written_100 :: world where
  "written_100 =
     (case log_write_low (\<lambda>_. 0x41) 100 fresh_group_log of
        Some log \<Rightarrow> snd (log_close log)
      | None \<Rightarrow> fresh_group_log)"

subsection \<open>The configuration and the position of the log\<close>

text \<open>
  What the functions of the file read of the state and do not change: the size of the
  buffer and its margin, the files of the groups, the settings of the server, whether
  there are file names to repeat, and the oldest modification in the buffer pool.
  \<open>innodb_config\<close> is the configuration of \<open>fresh_group_log\<close>.
\<close>

definition log_config ::
  "world \<Rightarrow> ulint \<times> ulint \<times> (ulint \<times> lsn_t \<times> ulint) list \<times> ulint \<times> srv_unix_flush_t
             \<times> bool \<times> bool \<times> srv_shutdown_state_t \<times> bool \<times> lsn_t" where
  "log_config log =
     (buf_size log, max_buf_free log,
      map (\<lambda>g. (n_files g, file_size g, space_id g)) (log_groups log),
      srv_log_write_ahead_size log, srv_unix_file_flush_method log,
      recv_no_ibuf_operations log, srv_read_only_mode log, srv_shutdown_state log,
      fil_names_dirty log = None, buf_pool_oldest_modification log)"

definition innodb_config ::
  "ulint \<times> ulint \<times> (ulint \<times> lsn_t \<times> ulint) list \<times> ulint \<times> srv_unix_flush_t
     \<times> bool \<times> bool \<times> srv_shutdown_state_t \<times> bool \<times> lsn_t" where
  "innodb_config =
     (8388608, 4126720, [(2, 50331648, 4294967280)], 8192, SRV_UNIX_FSYNC,
      False, False, SRV_SHUTDOWN_NONE, True, 0)"

text \<open>
  Where the log stands: \<open>lsn\<close>, \<open>buf_free\<close>, \<open>buf_next_to_write\<close>, \<open>write_lsn\<close>,
  \<open>flushed_to_disk_lsn\<close>, the pending flushes and the flush event, \<open>group_lsn\<close> and
  \<open>lsn_offset\<close> of each group, \<open>next_checkpoint_no\<close>, \<open>last_checkpoint_lsn\<close>, the pending
  checkpoint writes, and the slots of the checkpoint writes issued so far.
\<close>

definition log_position ::
  "world \<Rightarrow> lsn_t \<times> ulint \<times> ulint \<times> lsn_t \<times> lsn_t \<times> ulint \<times> bool
             \<times> (lsn_t \<times> lsn_t) list \<times> 64 word \<times> lsn_t \<times> ulint \<times> ulint list" where
  "log_position log =
     (lsn log, buf_free log, buf_next_to_write log, write_lsn log, flushed_to_disk_lsn log,
      n_pending_flushes log, flush_event log,
      map (\<lambda>g. (group_lsn g, lsn_offset g)) (log_groups log),
      next_checkpoint_no log, last_checkpoint_lsn log, n_pending_checkpoint_writes log,
      map fst (checkpoint_writes (fil_calls log)))"

section \<open>Offsets with and without the file headers\<close>

lemma offset_nat_core:
  fixes r F H :: nat
  assumes "H \<le> r mod F" "0 < F"
  shows "(r - H * (1 + r div F)) div (F - H) = r div F" and "H * (1 + r div F) \<le> r"
proof -
  define q where "q = r div F"
  define p where "p = r mod F"
  have r: "r = q * F + p" by (simp add: q_def p_def)
  have pF: "p < F" using assms by (simp add: p_def)
  have Hp: "H \<le> p" using assms by (simp add: p_def)
  have HF: "H < F" using pF Hp by simp
  have qH: "H * q \<le> F * q" using HF by simp
  have "H + H * q \<le> p + F * q"
    using Hp qH by (rule add_mono)
  then have "H * (1 + q) \<le> r" using r by (simp add: algebra_simps)
  then show le: "H * (1 + r div F) \<le> r" by (simp add: q_def)
  have "r - H * (1 + q) = (p - H) + (F * q - H * q)"
    using r Hp qH by (simp add: algebra_simps)
  also have "\<dots> = (p - H) + q * (F - H)" by (simp add: diff_mult_distrib algebra_simps)
  finally have "r - H * (1 + q) = (p - H) + q * (F - H)" .
  moreover have "p - H < F - H" using pF Hp by simp
  ultimately have "(r - H * (1 + q)) div (F - H) = q" by simp
  then show "(r - H * (1 + r div F)) div (F - H) = r div F"
    by (simp add: q_def)
qed

lemma real_of_size_word:
  fixes r F H :: "64 word"
  assumes "H \<le> r mod F" "F \<noteq> 0"
  shows "r - H * (1 + r div F) + H * (1 + (r - H * (1 + r div F)) div (F - H)) = r"
proof (cases "H = 0")
  case True then show ?thesis by simp
next
  case False
  have a: "unat H \<le> unat r mod unat F" using assms(1) by (simp add: word_le_nat_alt unat_mod)
  have b: "0 < unat F" using assms(2) by (simp add: unat_gt_0)
  note c = offset_nat_core[OF a b]
  have H0: "0 < unat H" using False by (simp add: unat_gt_0)
  have HF: "unat H < unat F" using a b by (meson le_less_trans mod_less_divisor)
  have rb: "unat r < 2^64" using unsigned_less[of r] by simp
  have q: "unat (r div F) = unat r div unat F" by (simp add: unat_div)
  have F2: "2 \<le> unat F" using H0 HF by simp
  have "unat r div unat F \<le> unat r div 2" using F2 by (simp add: div_le_mono2)
  then have qlt: "unat r div unat F < 2^64 - 1" using rb by simp
  have u1: "unat (1 + r div F) = 1 + unat r div unat F"
    using qlt q unat_add_lem[of 1 "r div F"] by simp
  have u2: "unat (H * (1 + r div F)) = unat H * (1 + unat r div unat F)"
    using c(2) rb u1 unat_mult_lem[of H "1 + r div F"] by simp
  have le: "H * (1 + r div F) \<le> r" using c(2) u2 by (simp add: word_le_nat_alt)
  have u3: "unat (r - H * (1 + r div F)) = unat r - unat H * (1 + unat r div unat F)"
    using unat_sub[OF le] u2 by simp
  have HFw: "H \<le> F" using HF by (simp add: word_le_nat_alt)
  have u4: "unat (F - H) = unat F - unat H" using unat_sub[OF HFw] .
  have "unat ((r - H * (1 + r div F)) div (F - H)) = unat r div unat F"
    using c(1) by (simp add: unat_div u3 u4)
  then have "(r - H * (1 + r div F)) div (F - H) = r div F"
    using q by (simp add: word_unat_eq_iff)
  then show ?thesis by simp
qed

lemma size_nat_core:
  fixes s F H :: nat
  assumes "H < F"
  shows "(s + H * (1 + s div (F - H))) div F = s div (F - H)"
proof -
  define D where "D = F - H"
  define q where "q = s div D"
  define t where "t = s mod D"
  have D0: "0 < D" using assms by (simp add: D_def)
  have s: "s = q * D + t" by (simp add: q_def t_def)
  have tD: "t < D" using D0 by (simp add: t_def)
  have F: "F = D + H" using assms by (simp add: D_def)
  have eq: "s + H * (1 + q) = (t + H) + q * F"
    by (simp add: s F algebra_simps)
  have lt: "t + H < F" using tD F by simp
  have "(s + H * (1 + q)) div F = ((t + H) + q * F) div F" by (simp only: eq)
  also have "\<dots> = q" using lt by simp
  finally show ?thesis by (simp add: q_def D_def)
qed

lemma size_of_real_word:
  fixes s F H :: "64 word"
  assumes HF: "H < F"
    and no: "unat s + unat H * (1 + unat s div (unat F - unat H)) < 2 ^ 64"
  shows "s + H * (1 + s div (F - H)) - H * (1 + (s + H * (1 + s div (F - H))) div F) = s"
proof (cases "H = 0")
  case True then show ?thesis by simp
next
  case False
  define n where "n = unat s div (unat F - unat H)"
  define P where "P = unat H * (1 + n)"
  have no': "unat s + P < 2 ^ 64" using no by (simp add: P_def n_def)
  have H0: "0 < unat H" using False by (simp add: unat_gt_0)
  have HFn: "unat H < unat F" using HF by (simp add: word_less_nat_alt)
  have HFw: "H \<le> F" using HF by simp
  have u4: "unat (F - H) = unat F - unat H" using unat_sub[OF HFw] .
  have q: "unat (s div (F - H)) = n" by (simp add: unat_div u4 n_def)
  have "1 * (1 + n) \<le> unat H * (1 + n)"
    by (rule mult_le_mono1) (use H0 in simp)
  then have nP: "1 + n \<le> P" by (simp add: P_def)
  have qlt: "1 + n < 2 ^ 64" using nP no' by linarith
  have u1: "unat (1 + s div (F - H)) = 1 + n"
    using qlt q unat_add_lem[of 1 "s div (F - H)"] by simp
  have plt: "P < 2 ^ 64" using no' by linarith
  have u2: "unat (H * (1 + s div (F - H))) = P"
    using plt u1 unat_mult_lem[of H "1 + s div (F - H)"] by (simp add: P_def)
  have u3: "unat (s + H * (1 + s div (F - H))) = unat s + P"
    using no' u2 unat_add_lem[of s "H * (1 + s div (F - H))"] by simp
  have "unat ((s + H * (1 + s div (F - H))) div F) = n"
    using size_nat_core[OF HFn, of "unat s"] by (simp add: unat_div u3 P_def n_def)
  then have "(s + H * (1 + s div (F - H))) div F = s div (F - H)"
    using q by (simp add: word_unat_eq_iff)
  then show ?thesis by simp
qed

text \<open>
  Claim C9. \<open>log_group_calc_size_offset\<close> and \<open>log_group_calc_real_offset\<close> are inverse
  to each other. For a real offset \<open>r\<close> whose position inside its file is at least
  \<open>LOG_FILE_HDR_SIZE\<close>, the real offset of the size offset of \<open>r\<close> is \<open>r\<close>: this holds in
  the 64-bit arithmetic of the code for every such \<open>r\<close>, in the group or beyond it.
  In the other direction the size offset of the real offset of \<open>s\<close> is \<open>s\<close>, as long as
  the real offset does not exceed 64 bits.
\<close>

theorem log_group_offsets_inverse:
  "(file_size g \<noteq> 0 \<and> LOG_FILE_HDR_SIZE K \<le> r mod file_size g \<longrightarrow>
      Option.bind (log_group_calc_size_offset K r g)
        (\<lambda>s. log_group_calc_real_offset K s g) = Some r)
   \<and> (LOG_FILE_HDR_SIZE K < file_size g
        \<and> unat s + unat (LOG_FILE_HDR_SIZE K)
            * (1 + unat s div (unat (file_size g) - unat (LOG_FILE_HDR_SIZE K))) < 2 ^ 64 \<longrightarrow>
      Option.bind (log_group_calc_real_offset K s g)
        (\<lambda>r. log_group_calc_size_offset K r g) = Some s)"
proof (intro conjI impI)
  assume a: "file_size g \<noteq> 0 \<and> LOG_FILE_HDR_SIZE K \<le> r mod file_size g"
  then have "r mod file_size g < file_size g"
    by (simp add: word_mod_less_divisor word_greater_zero_iff)
  with a have ne: "file_size g - LOG_FILE_HDR_SIZE K \<noteq> 0" by auto
  show "Option.bind (log_group_calc_size_offset K r g)
        (\<lambda>s. log_group_calc_real_offset K s g) = Some r"
    using a ne real_of_size_word[of "LOG_FILE_HDR_SIZE K" r "file_size g"]
    by (simp add: log_group_calc_size_offset_def log_group_calc_real_offset_def)
next
  assume b: "LOG_FILE_HDR_SIZE K < file_size g
        \<and> unat s + unat (LOG_FILE_HDR_SIZE K)
            * (1 + unat s div (unat (file_size g) - unat (LOG_FILE_HDR_SIZE K))) < 2 ^ 64"
  then have ne: "file_size g - LOG_FILE_HDR_SIZE K \<noteq> 0" "file_size g \<noteq> 0" by auto
  show "Option.bind (log_group_calc_real_offset K s g)
        (\<lambda>r. log_group_calc_size_offset K r g) = Some s"
    using b ne size_of_real_word[of "LOG_FILE_HDR_SIZE K" "file_size g" s]
    by (simp add: log_group_calc_size_offset_def log_group_calc_real_offset_def)
qed

text \<open>
  The real offset 50334648 lies 3000 bytes into the second file of \<open>two_files\<close>; its
  size offset is 50330552.
\<close>

theorem log_group_offsets_inverse_witness:
  "file_size two_files \<noteq> 0
   \<and> LOG_FILE_HDR_SIZE innodb_consts \<le> 50334648 mod file_size two_files
   \<and> log_group_calc_size_offset innodb_consts 50334648 two_files = Some 50330552
   \<and> Option.bind (log_group_calc_size_offset innodb_consts 50334648 two_files)
        (\<lambda>s. log_group_calc_real_offset innodb_consts s two_files) = Some 50334648
   \<and> LOG_FILE_HDR_SIZE innodb_consts < file_size two_files
   \<and> Option.bind (log_group_calc_real_offset innodb_consts 50330552 two_files)
        (\<lambda>r. log_group_calc_size_offset innodb_consts r two_files) = Some 50330552"
  using log_group_offsets_inverse [of two_files innodb_consts 50334648 50330552]
  by (simp add: two_files_def innodb_consts_def log_group_calc_size_offset_def)

section \<open>The thresholds of \<open>log_calc_max_ages\<close>\<close>

lemma if_less_min: "(if (c::64 word) < a then c else a) = min c a"
  by (auto simp: min_def)

lemma log_calc_max_ages_loop_fst:
  "fst (log_calc_max_ages_loop K gs (a, b)) = fold min (map (log_group_get_capacity K) gs) a"
proof (induction gs arbitrary: a b)
  case Nil then show ?case by simp
next
  case (Cons g gs)
  show ?case by (simp add: Let_def Cons.IH if_less_min)
qed

lemma smallest_group_capacity_loop:
  "fst (log_calc_max_ages_loop K (log_groups log) (LSN_MAX, LSN_MAX))
     = smallest_group_capacity K log"
  unfolding smallest_group_capacity_def Min.set_eq_fold
  by (simp add: log_calc_max_ages_loop_fst)

lemmas consts_simps = innodb_consts_def LOG_BUF_FLUSH_MARGIN_def
  LOG_CHECKPOINT_FREE_PER_THREAD_def LOG_CHECKPOINT_EXTRA_FREE_def
  LOG_ARCHIVE_EXTRA_MARGIN_def LOG_BUFFER_SIZE_def

text \<open>
  Claim C3, as stated, fails. With one group of capacity \<open>C = 1600000\<close> and no
  concurrency limit the reserve is 786432, below \<open>C / 2\<close>, so by the claim the
  initialisation succeeds; the code first takes a tenth off the capacity ("Add extra
  safety"), compares the reserve with half of the remaining 1440000, and fails.
\<close>

theorem log_calc_max_ages_counterexample:
  "smallest_group_capacity innodb_consts small_log = 1600000
   \<and> checkpoint_reserve innodb_consts small_log = 786432
   \<and> \<not> spec_init_fails innodb_consts small_log
   \<and> \<not> fst (log_calc_max_ages innodb_consts small_log)"
  by (simp add: spec_init_fails_def log_calc_max_ages_def small_log_def two_files_def
      server_start_def checkpoint_reserve_def smallest_group_capacity_def
      log_group_get_capacity_def consts_simps)

text \<open>
  Claim C3, amended. Let \<open>C\<close> be the smallest group capacity, \<open>C' = C - C / 10\<close> and
  \<open>reserve\<close> as in the claim. \<open>log_calc_max_ages\<close> fails exactly when
  \<open>reserve \<ge> C' / 2\<close>, and then leaves the log system as it is; otherwise, with
  \<open>M0 = C' - reserve\<close> and \<open>M = M0 - M0 / 10\<close>, it sets \<open>log_group_capacity = C'\<close>,
  \<open>max_checkpoint_age = M\<close>, \<open>max_checkpoint_age_async = M - M / 32\<close>,
  \<open>max_modified_age_sync = M - M / 16\<close> and \<open>max_modified_age_async = M - M / 8\<close>, every
  division being the integer division of unsigned 64-bit values.
\<close>

theorem log_calc_max_ages_thresholds:
  "(let C = smallest_group_capacity K log;
        C' = C - C div 10;
        reserve = checkpoint_reserve K log;
        M0 = C' - reserve;
        M = M0 - M0 div 10;
        r = log_calc_max_ages K log
    in (fst r \<longleftrightarrow> reserve < C' div 2)
       \<and> (reserve \<ge> C' div 2 \<longrightarrow> snd r = log)
       \<and> (reserve < C' div 2 \<longrightarrow>
            log_group_capacity (snd r) = C'
            \<and> max_checkpoint_age (snd r) = M
            \<and> max_checkpoint_age_async (snd r) = M - M div 32
            \<and> max_modified_age_sync (snd r) = M - M div 16
            \<and> max_modified_age_async (snd r) = M - M div 8))"
proof -
  obtain a b where ab: "log_calc_max_ages_loop K (log_groups log) (LSN_MAX, LSN_MAX) = (a, b)"
    by (cases "log_calc_max_ages_loop K (log_groups log) (LSN_MAX, LSN_MAX)")
  have a: "a = smallest_group_capacity K log"
    using smallest_group_capacity_loop[of K log] ab by simp
  have fr: "LOG_CHECKPOINT_FREE_PER_THREAD K * (10 + srv_thread_concurrency log)
              + LOG_CHECKPOINT_EXTRA_FREE K = checkpoint_reserve K log"
    by (simp add: checkpoint_reserve_def add.commute)
  show ?thesis
    unfolding log_calc_max_ages_def ab fr
    by (auto simp: Let_def a)
qed

text \<open>
  With the two files of 48 MiB: \<open>C = 100659200\<close>, \<open>C' = 90593280\<close>, \<open>M0 = 89806848\<close>
  and \<open>M = 80826164\<close>.
\<close>

theorem log_calc_max_ages_thresholds_witness:
  "smallest_group_capacity innodb_consts big_log = 100659200
   \<and> checkpoint_reserve innodb_consts big_log = 786432
   \<and> fst (log_calc_max_ages innodb_consts big_log)
   \<and> log_group_capacity (snd (log_calc_max_ages innodb_consts big_log)) = 90593280
   \<and> max_checkpoint_age (snd (log_calc_max_ages innodb_consts big_log)) = 80826164
   \<and> max_checkpoint_age_async (snd (log_calc_max_ages innodb_consts big_log)) = 78300347
   \<and> max_modified_age_sync (snd (log_calc_max_ages innodb_consts big_log)) = 75774529
   \<and> max_modified_age_async (snd (log_calc_max_ages innodb_consts big_log)) = 70722894"
proof -
  have C: "smallest_group_capacity innodb_consts big_log = 100659200"
    by (simp add: smallest_group_capacity_def big_log_def two_files_def server_start_def
        log_group_get_capacity_def consts_simps)
  have R: "checkpoint_reserve innodb_consts big_log = 786432"
    by (simp add: checkpoint_reserve_def big_log_def server_start_def consts_simps)
  show ?thesis
    using log_calc_max_ages_thresholds [of innodb_consts big_log]
    by (simp add: C R Let_def)
qed

section \<open>Closing the log\<close>

lemma if_upd_buf:
  "(if c then r\<lparr>buf := v\<rparr> else r) = (r::world)\<lparr>buf := (if c then v else buf r)\<rparr>"
  by (cases c) simp_all

lemma if_upd_cf:
  "(if c then r\<lparr>check_flush_or_checkpoint := True\<rparr> else r)
     = (r::world)\<lparr>check_flush_or_checkpoint := (check_flush_or_checkpoint r \<or> c)\<rparr>"
  by (cases c) simp_all

lemma if_upd_track:
  "(if srv_track_changed_pages r
    then (if c then r\<lparr>srv_track_changed_pages := False\<rparr> else r) else r)
     = (r::world)\<lparr>srv_track_changed_pages := (srv_track_changed_pages r \<and> \<not> c)\<rparr>"
  by (cases c; cases "srv_track_changed_pages r") simp_all

lemma if_upd_warn:
  "(if c then r\<lparr>log_has_printed_chkp_warning := True, log_last_warning_time := t\<rparr> else r)
     = (r::world)\<lparr>log_has_printed_chkp_warning := (log_has_printed_chkp_warning r \<or> c),
                    log_last_warning_time := (if c then t else log_last_warning_time r)\<rparr>"
  by (cases c) simp_all

text \<open>What \<open>log_close\<close> returns, as one update of the state it is given.\<close>

lemma log_close_summary:
  "log_close log =
     (lsn log,
      log\<lparr>buf :=
             (if log_block_get_first_rec_group (buf log)
                   (ut_calc_align_down (buf_free log) OS_FILE_LOG_BLOCK_SIZE) = 0
              then log_block_set_first_rec_group (buf log)
                     (ut_calc_align_down (buf_free log) OS_FILE_LOG_BLOCK_SIZE)
                     (log_block_get_data_len (buf log)
                        (ut_calc_align_down (buf_free log) OS_FILE_LOG_BLOCK_SIZE))
              else buf log),
          check_flush_or_checkpoint :=
             (check_flush_or_checkpoint log
              \<or> buf_free log > max_buf_free log
              \<or> (lsn log - last_checkpoint_lsn log > max_modified_age_sync log
                   \<and> (buf_pool_oldest_modification log = 0
                        \<or> lsn log - buf_pool_oldest_modification log
                             > max_modified_age_sync log
                        \<or> lsn log - last_checkpoint_lsn log
                             > max_checkpoint_age_async log))),
          srv_track_changed_pages :=
             (srv_track_changed_pages log
              \<and> lsn log - tracked_lsn log < log_group_capacity log),
          log_has_printed_chkp_warning :=
             (log_has_printed_chkp_warning log
              \<or> lsn log - last_checkpoint_lsn log \<ge> log_group_capacity log),
          log_last_warning_time :=
             (if lsn log - last_checkpoint_lsn log \<ge> log_group_capacity log
                 \<and> (\<not> log_has_printed_chkp_warning log
                      \<or> time_now log - log_last_warning_time log > 15)
              then time_now log else log_last_warning_time log)\<rparr>)"
  (is "_ = (_, ?R)")
proof -
  define blk where "blk = ut_calc_align_down (buf_free log) OS_FILE_LOG_BLOCK_SIZE"
  define log1 where "log1 = (if log_block_get_first_rec_group (buf log) blk = 0
                  then log\<lparr>buf := log_block_set_first_rec_group (buf log) blk
                                    (log_block_get_data_len (buf log) blk)\<rparr>
                  else log)"
  define log2 where "log2 = (if buf_free log1 > max_buf_free log1
                  then log1\<lparr>check_flush_or_checkpoint := True\<rparr> else log1)"
  define log3 where "log3 = (if srv_track_changed_pages log2
                  then (let tracked_lsn_age = lsn log - log_get_tracked_lsn log2
                        in if tracked_lsn_age \<ge> log_group_capacity log2
                           then log2\<lparr>srv_track_changed_pages := False\<rparr> else log2)
                  else log2)"
  define age where "age = lsn log - last_checkpoint_lsn log3"
  define log4 where "log4 = (if age \<ge> log_group_capacity log3
                    \<and> (\<not> log_has_printed_chkp_warning log3
                         \<or> time_now log3 - log_last_warning_time log3 > 15)
                  then log3\<lparr>log_has_printed_chkp_warning := True,
                            log_last_warning_time := time_now log3\<rparr>
                  else log3)"
  define c5 where "c5 = (buf_pool_oldest_modification log4 = 0
                     \<or> lsn log - buf_pool_oldest_modification log4 > max_modified_age_sync log4
                     \<or> age > max_checkpoint_age_async log4)"
  have unf: "log_close log =
      (if age \<le> max_modified_age_sync log4 then (lsn log, log4)
         else (if c5
                  then (lsn log, log4\<lparr>check_flush_or_checkpoint := True\<rparr>)
                  else (lsn log, log4)))"
    unfolding log_close_def c5_def log4_def age_def log3_def log2_def log1_def blk_def Let_def
    by (rule refl)
  have e1: "log1 = log\<lparr>buf := (if log_block_get_first_rec_group (buf log) blk = 0
              then log_block_set_first_rec_group (buf log) blk
                     (log_block_get_data_len (buf log) blk)
              else buf log)\<rparr>"
    unfolding log1_def by (rule if_upd_buf)
  have e2: "log2 = log1\<lparr>check_flush_or_checkpoint :=
               (check_flush_or_checkpoint log \<or> buf_free log > max_buf_free log)\<rparr>"
    unfolding log2_def if_upd_cf by (simp add: e1)
  have e3: "log3 = log2\<lparr>srv_track_changed_pages :=
              (srv_track_changed_pages log
               \<and> lsn log - tracked_lsn log < log_group_capacity log)\<rparr>"
    unfolding log3_def Let_def if_upd_track
    by (simp add: e2 e1 log_get_tracked_lsn_def not_le)
  have age: "age = lsn log - last_checkpoint_lsn log" by (simp add: age_def e3 e2 e1)
  define c4 where "c4 = (age \<ge> log_group_capacity log
                 \<and> (\<not> log_has_printed_chkp_warning log
                      \<or> time_now log - log_last_warning_time log > 15))"
  have c4: "(age \<ge> log_group_capacity log3
                    \<and> (\<not> log_has_printed_chkp_warning log3
                         \<or> time_now log3 - log_last_warning_time log3 > 15)) = c4"
    unfolding c4_def by (simp add: e3 e2 e1)
  have e4: "log4 = log3\<lparr>
            log_has_printed_chkp_warning := (log_has_printed_chkp_warning log \<or> c4),
            log_last_warning_time := (if c4 then time_now log else log_last_warning_time log)\<rparr>"
    unfolding log4_def c4 if_upd_warn by (simp add: e3 e2 e1)
  have c5: "c5 = (buf_pool_oldest_modification log = 0
                        \<or> lsn log - buf_pool_oldest_modification log
                             > max_modified_age_sync log
                        \<or> age > max_checkpoint_age_async log)"
    unfolding c5_def by (simp add: e4 e3 e2 e1)
  have m4: "max_modified_age_sync log4 = max_modified_age_sync log"
    by (simp add: e4 e3 e2 e1)
  have unf2: "log_close log = (lsn log, log4\<lparr>check_flush_or_checkpoint :=
                 (check_flush_or_checkpoint log4
                  \<or> (\<not> age \<le> max_modified_age_sync log \<and> c5))\<rparr>)"
    unfolding unf m4 by (cases "age \<le> max_modified_age_sync log"; cases c5) simp_all
  have pw: "(log_has_printed_chkp_warning log \<or> c4)
            = (log_has_printed_chkp_warning log \<or> age \<ge> log_group_capacity log)"
    unfolding c4_def by blast
  have fin: "log4\<lparr>check_flush_or_checkpoint :=
                 (check_flush_or_checkpoint log4
                  \<or> (\<not> age \<le> max_modified_age_sync log \<and> c5))\<rparr> = ?R"
    unfolding e4 e3 e2 e1 pw
    by (simp add: c5 c4_def age blk_def not_le disj_assoc)
  show ?thesis unfolding unf2 fin by (rule refl)
qed

lemma fresh_log_eq: "log_init innodb_consts server_start = Some fresh_log"
  by (simp add: fresh_log_def log_init_def consts_simps server_start_def)

lemma fresh_log_fields:
  "lsn fresh_log = 8204" "buf_free fresh_log = 12" "write_lsn fresh_log = 8192"
  "flushed_to_disk_lsn fresh_log = 0" "max_buf_free fresh_log = 4126720"
  "buf_size fresh_log = 8388608" "buf_next_to_write fresh_log = 0"
  "next_checkpoint_no fresh_log = 0" "last_checkpoint_lsn fresh_log = 8192"
  "check_flush_or_checkpoint fresh_log" "log_groups fresh_log = []"
  "write_end_offset fresh_log = 0" "max_modified_age_sync fresh_log = 0"
  "log_group_capacity fresh_log = 0" "\<not> srv_track_changed_pages fresh_log"
  "\<not> log_has_printed_chkp_warning fresh_log" "time_now fresh_log = 0"
  "log_last_warning_time fresh_log = 0" "buf_pool_oldest_modification fresh_log = 0"
  by (simp_all add: fresh_log_def log_init_def consts_simps server_start_def)

text \<open>
  Claim C10. \<open>log_close\<close> returns the current lsn and changes neither \<open>lsn\<close>, \<open>buf_free\<close>
  nor \<open>buf_next_to_write\<close>. Its result differs from the state it is given at most in the
  log buffer, where the first-rec-group field of the current block is set to the block's
  data length if it was 0; in the flag \<open>check_flush_or_checkpoint\<close>, which is raised under
  the margin conditions; in \<open>srv_track_changed_pages\<close>, which is switched off when the
  tracked lsn is a whole group capacity behind; and in the two variables that record
  the warning about an old checkpoint.
\<close>

theorem log_close_frame:
  "(let r = log_close log;
        log' = snd r;
        blk = ut_calc_align_down (buf_free log) OS_FILE_LOG_BLOCK_SIZE;
        age = lsn log - last_checkpoint_lsn log
    in fst r = lsn log
       \<and> lsn log' = lsn log
       \<and> buf_free log' = buf_free log
       \<and> buf_next_to_write log' = buf_next_to_write log
       \<and> log' = log\<lparr>buf := buf log',
                     check_flush_or_checkpoint := check_flush_or_checkpoint log',
                     srv_track_changed_pages := srv_track_changed_pages log',
                     log_has_printed_chkp_warning := log_has_printed_chkp_warning log',
                     log_last_warning_time := log_last_warning_time log'\<rparr>
       \<and> buf log' =
             (if log_block_get_first_rec_group (buf log) blk = 0
              then log_block_set_first_rec_group (buf log) blk
                     (log_block_get_data_len (buf log) blk)
              else buf log)
       \<and> (check_flush_or_checkpoint log' \<longleftrightarrow>
             check_flush_or_checkpoint log
             \<or> buf_free log > max_buf_free log
             \<or> (age > max_modified_age_sync log
                  \<and> (buf_pool_oldest_modification log = 0
                       \<or> lsn log - buf_pool_oldest_modification log
                            > max_modified_age_sync log
                       \<or> age > max_checkpoint_age_async log)))
       \<and> (srv_track_changed_pages log' \<longleftrightarrow>
             srv_track_changed_pages log
             \<and> lsn log - tracked_lsn log < log_group_capacity log)
       \<and> (log_has_printed_chkp_warning log' \<longleftrightarrow>
             log_has_printed_chkp_warning log \<or> age \<ge> log_group_capacity log)
       \<and> log_last_warning_time log' =
             (if age \<ge> log_group_capacity log
                 \<and> (\<not> log_has_printed_chkp_warning log
                      \<or> time_now log - log_last_warning_time log > 15)
              then time_now log else log_last_warning_time log))"
  unfolding Let_def log_close_summary by simp

text \<open>
  On the fresh log, whose thresholds are still 0, \<open>log_close\<close> returns 8204, leaves the
  buffer as it is (the first block has its first-rec-group offset), and the warning is
  recorded: the checkpoint age 12 is not below the group capacity 0.
\<close>

theorem log_close_frame_witness:
  "fst (log_close fresh_log) = 8204
   \<and> lsn (snd (log_close fresh_log)) = 8204
   \<and> buf_free (snd (log_close fresh_log)) = 12
   \<and> buf_next_to_write (snd (log_close fresh_log)) = 0
   \<and> check_flush_or_checkpoint (snd (log_close fresh_log))
   \<and> \<not> srv_track_changed_pages (snd (log_close fresh_log))
   \<and> log_has_printed_chkp_warning (snd (log_close fresh_log))"
  using log_close_frame [of fresh_log]
  by (simp add: Let_def fresh_log_fields)

section \<open>The completion of a write\<close>

lemma unat_align_down:
  "unat (ut_calc_align_down n OS_FILE_LOG_BLOCK_SIZE) = unat n - unat n mod 512"
proof -
  have "n mod 512 \<le> n" by (simp add: word_le_nat_alt unat_mod)
  then show ?thesis by (simp add: ut_calc_align_down_def unat_sub unat_mod)
qed

lemma align_down_le: "ut_calc_align_down n OS_FILE_LOG_BLOCK_SIZE \<le> n"
  by (simp add: word_le_nat_alt unat_align_down)

lemma unat_align_up:
  assumes "unat n + 511 < 2 ^ 64"
  shows "unat (ut_calc_align n OS_FILE_LOG_BLOCK_SIZE)
           = (unat n + 511) - (unat n + 511) mod 512"
proof -
  have "unat (n + 511) = unat n + 511"
    using assms unat_add_lem[of n 511] by simp
  moreover have "n + 512 - 1 = n + 511" by simp
  ultimately show ?thesis
    unfolding ut_calc_align_def by (simp only: unat_align_down)
qed

lemma align_up_ge:
  assumes "unat n + 511 < 2 ^ 64"
  shows "n \<le> ut_calc_align n OS_FILE_LOG_BLOCK_SIZE"
proof -
  have "(unat n + 511) mod 512 \<le> 511" by simp
  then have "unat n \<le> (unat n + 511) - (unat n + 511) mod 512" by linarith
  then show ?thesis using unat_align_up[OF assms] by (simp add: word_le_nat_alt)
qed

lemma word_sub_less_mono:
  fixes a j e :: "64 word"
  assumes "a \<le> j" "j < e"
  shows "j - a < e - a"
proof -
  have ae: "a \<le> e" using assms by simp
  show ?thesis
    using assms
    by (simp add: word_less_nat_alt word_le_nat_alt unat_sub[OF assms(1)] unat_sub[OF ae]
        diff_less_mono)
qed

lemma log_sys_write_completion_summary:
  "log_sys_write_completion log =
     (if write_end_offset log > max_buf_free log div 2
      then log\<lparr>write_lsn := lsn log,
               buf_next_to_write := write_end_offset log
                  - ut_calc_align_down (write_end_offset log) OS_FILE_LOG_BLOCK_SIZE,
               buf := ut_memmove (buf log) 0
                        (ut_calc_align_down (write_end_offset log) OS_FILE_LOG_BLOCK_SIZE)
                        (ut_calc_align (buf_free log) OS_FILE_LOG_BLOCK_SIZE
                           - ut_calc_align_down (write_end_offset log) OS_FILE_LOG_BLOCK_SIZE),
               buf_free := buf_free log
                  - ut_calc_align_down (write_end_offset log) OS_FILE_LOG_BLOCK_SIZE\<rparr>
      else log\<lparr>write_lsn := lsn log, buf_next_to_write := write_end_offset log\<rparr>)"
  by (simp add: log_sys_write_completion_def Let_def)

text \<open>
  Claim C7. \<open>log_sys_write_completion\<close> sets \<open>write_lsn\<close> to \<open>lsn\<close> and
  \<open>buf_next_to_write\<close> to \<open>write_end_offset\<close>. If \<open>write_end_offset\<close> exceeds half of
  \<open>max_buf_free\<close>, it also moves the bytes from \<open>move_start\<close>, the block start below
  \<open>write_end_offset\<close>, up to \<open>move_end\<close>, the block end above \<open>buf_free\<close>, to the offset 0
  of the buffer, leaves the bytes from \<open>move_end - move_start\<close> on as they are, and
  takes \<open>move_start\<close> off \<open>buf_free\<close> and \<open>buf_next_to_write\<close>; every byte that was not
  written yet (from \<open>write_end_offset\<close> up to \<open>buf_free\<close>) is then found \<open>move_start\<close>
  bytes lower. Nothing else changes.
\<close>

theorem log_sys_write_completion_effect:
  "(let log' = log_sys_write_completion log;
        move_start = ut_calc_align_down (write_end_offset log) OS_FILE_LOG_BLOCK_SIZE;
        move_end = ut_calc_align (buf_free log) OS_FILE_LOG_BLOCK_SIZE
    in write_lsn log' = lsn log
       \<and> (if write_end_offset log > max_buf_free log div 2
           then buf_next_to_write log' = write_end_offset log - move_start
                \<and> buf_free log' = buf_free log - move_start
                \<and> (\<forall>i. i < move_end - move_start \<longrightarrow> buf log' i = buf log (move_start + i))
                \<and> (\<forall>a. move_end - move_start \<le> a \<longrightarrow> buf log' a = buf log a)
                \<and> (write_end_offset log \<le> buf_free log
                      \<and> unat (buf_free log) + 511 < 2 ^ 64 \<longrightarrow>
                      (\<forall>j. write_end_offset log \<le> j \<and> j < buf_free log \<longrightarrow>
                            buf log' (j - move_start) = buf log j))
                \<and> log' = log\<lparr>write_lsn := lsn log,
                               buf_next_to_write := buf_next_to_write log',
                               buf_free := buf_free log', buf := buf log'\<rparr>
           else buf_next_to_write log' = write_end_offset log
                \<and> buf_free log' = buf_free log
                \<and> buf log' = buf log
                \<and> log' = log\<lparr>write_lsn := lsn log,
                               buf_next_to_write := write_end_offset log\<rparr>))"
proof (cases "write_end_offset log > max_buf_free log div 2")
  case False
  then show ?thesis by (simp add: log_sys_write_completion_summary Let_def)
next
  case True
  define ms where "ms = ut_calc_align_down (write_end_offset log) OS_FILE_LOG_BLOCK_SIZE"
  define me where "me = ut_calc_align (buf_free log) OS_FILE_LOG_BLOCK_SIZE"
  have unwritten: "j - ms < me - ms"
    if a: "write_end_offset log \<le> buf_free log" "unat (buf_free log) + 511 < 2 ^ 64"
      and j: "write_end_offset log \<le> j" "j < buf_free log" for j
  proof -
    have "ms \<le> write_end_offset log" unfolding ms_def by (rule align_down_le)
    then have 1: "ms \<le> j" using j by simp
    have "buf_free log \<le> me" unfolding me_def using a(2) by (rule align_up_ge)
    then have 2: "j < me" using j by simp
    show ?thesis using 1 2 by (rule word_sub_less_mono)
  qed
  show ?thesis
    using True unwritten
    by (auto simp add: log_sys_write_completion_summary Let_def ut_memmove_def
          ms_def[symmetric] me_def[symmetric] not_less)
qed

text \<open>
  With 5000000 bytes in the buffer, all written: the last block starts at 4999680, so
  320 bytes stay, and the byte at 4999700 moves to 20.
\<close>

theorem log_sys_write_completion_effect_witness:
  "write_end_offset full_buffer > max_buf_free full_buffer div 2
   \<and> write_lsn (log_sys_write_completion full_buffer) = 8204
   \<and> buf_next_to_write (log_sys_write_completion full_buffer) = 320
   \<and> buf_free (log_sys_write_completion full_buffer) = 320
   \<and> buf (log_sys_write_completion full_buffer) 20 = buf full_buffer 4999700"
proof -
  have f: "write_end_offset full_buffer = 5000000" "buf_free full_buffer = 5000000"
    "max_buf_free full_buffer = 4126720" "lsn full_buffer = 8204"
    by (simp_all add: full_buffer_def fresh_log_fields)
  have a: "ut_calc_align_down 5000000 OS_FILE_LOG_BLOCK_SIZE = 4999680"
    "ut_calc_align 5000000 OS_FILE_LOG_BLOCK_SIZE = 5000192"
    by (simp_all add: ut_calc_align_down_def ut_calc_align_def)
  have "(20 :: 64 word) < 5000192 - 4999680" by simp
  then show ?thesis
    using log_sys_write_completion_effect [of full_buffer]
    by (simp add: Let_def f a)
qed

section \<open>Appending to the log buffer\<close>

text \<open>One pass through \<^verbatim>\<open>part_loop\<close>, whatever is done with what remains of the string.\<close>

lemma log_write_low_body:
  "(let data_len0 = (buf_free log mod OS_FILE_LOG_BLOCK_SIZE) + str_len;
        fits = (data_len0 \<le> OS_FILE_LOG_BLOCK_SIZE - LOG_BLOCK_TRL_SIZE);
        data_len = (if fits then data_len0 else OS_FILE_LOG_BLOCK_SIZE - LOG_BLOCK_TRL_SIZE);
        len = (if fits then str_len
               else OS_FILE_LOG_BLOCK_SIZE - (buf_free log mod OS_FILE_LOG_BLOCK_SIZE)
                      - LOG_BLOCK_TRL_SIZE);
        b1 = ut_memcpy (buf log) (buf_free log) str len;
        str_len' = str_len - len;
        str' = (\<lambda>i. str (i + len));
        log_block = ut_calc_align_down (buf_free log) OS_FILE_LOG_BLOCK_SIZE;
        b2 = log_block_set_data_len b1 log_block data_len;
        log' =
          (if data_len = OS_FILE_LOG_BLOCK_SIZE - LOG_BLOCK_TRL_SIZE then
             (let b3 = log_block_set_data_len b2 log_block OS_FILE_LOG_BLOCK_SIZE;
                  b4 = log_block_set_checkpoint_no b3 log_block (next_checkpoint_no log);
                  len2 = len + (LOG_BLOCK_HDR_SIZE + LOG_BLOCK_TRL_SIZE);
                  lsn' = lsn log + len2;
                  b5 = log_block_init b4 (log_block + OS_FILE_LOG_BLOCK_SIZE) lsn'
              in log\<lparr>lsn := lsn', buf_free := buf_free log + len2, buf := b5\<rparr>)
           else log\<lparr>lsn := lsn log + len, buf_free := buf_free log + len, buf := b2\<rparr>)
    in if str_len' > 0 then f str' str_len' log' else Some log')
   = (if buf_free log mod 512 + str_len \<le> 508
      then Some (if buf_free log mod 512 + str_len = 508 then fill_block str str_len log
                 else append_in_block str str_len log)
      else f (\<lambda>i. str (i + (512 - buf_free log mod 512 - 4)))
             (str_len - (512 - buf_free log mod 512 - 4))
             (fill_block str (512 - buf_free log mod 512 - 4) log))"
proof (cases "buf_free log mod 512 + str_len \<le> 508")
  case True
  then show ?thesis
    by (simp add: Let_def fill_block_def append_in_block_def)
next
  case False
  have ne: "str_len - (512 - buf_free log mod 512 - 4) \<noteq> 0"
  proof
    assume "str_len - (512 - buf_free log mod 512 - 4) = 0"
    then have "str_len = 512 - buf_free log mod 512 - 4" by simp
    then have "buf_free log mod 512 + str_len = 508" by simp
    with False show False by simp
  qed
  show ?thesis
    using False ne by (simp add: Let_def fill_block_def word_greater_zero_iff)
qed

lemma log_write_low_step:
  "log_write_low str str_len log =
     (if buf_free log mod 512 + str_len \<le> 508
      then Some (if buf_free log mod 512 + str_len = 508 then fill_block str str_len log
                 else append_in_block str str_len log)
      else log_write_low (\<lambda>i. str (i + (512 - buf_free log mod 512 - 4)))
             (str_len - (512 - buf_free log mod 512 - 4))
             (fill_block str (512 - buf_free log mod 512 - 4) log))"
  by (subst log_write_low.simps) (rule log_write_low_body)

lemma append_in_block_frame:
  "append_in_block str len log =
     log\<lparr>lsn := lsn (append_in_block str len log),
         buf_free := buf_free (append_in_block str len log),
         buf := buf (append_in_block str len log)\<rparr>"
  by (simp add: append_in_block_def)

lemma fill_block_frame:
  "fill_block str len log =
     log\<lparr>lsn := lsn (fill_block str len log),
         buf_free := buf_free (fill_block str len log),
         buf := buf (fill_block str len log)\<rparr>"
  by (simp add: fill_block_def)

text \<open>\<open>log_write_low\<close> changes the lsn, the end of the log in the buffer and the buffer only.\<close>

lemma log_write_low_frame:
  assumes "log_write_low str str_len log = Some log'"
  shows "log' = log\<lparr>lsn := lsn log', buf_free := buf_free log', buf := buf log'\<rparr>"
  apply (rule log_write_low.raw_induct
      [where P = "\<lambda>str str_len log log'.
          log' = log\<lparr>lsn := lsn log', buf_free := buf_free log', buf := buf log'\<rparr>",
        OF _ assms])
  subgoal premises prems for f str str_len log log'
  proof (cases "buf_free log mod 512 + str_len \<le> 508")
    case True
    note step = prems(2)[unfolded log_write_low_body]
    have "log' = fill_block str str_len log \<or> log' = append_in_block str str_len log"
      using step True by (auto split: if_splits)
    then show ?thesis
    proof
      assume e: "log' = fill_block str str_len log"
      show ?thesis unfolding e by (rule fill_block_frame)
    next
      assume e: "log' = append_in_block str str_len log"
      show ?thesis unfolding e by (rule append_in_block_frame)
    qed
  next
    case False
    note step = prems(2)[unfolded log_write_low_body]
    define mid where "mid = fill_block str (512 - buf_free log mod 512 - 4) log"
    have "f (\<lambda>i. str (i + (512 - buf_free log mod 512 - 4)))
             (str_len - (512 - buf_free log mod 512 - 4)) mid = Some log'"
      using step False by (simp add: mid_def)
    then have a: "log' = mid\<lparr>lsn := lsn log', buf_free := buf_free log', buf := buf log'\<rparr>"
      by (rule prems(1))
    have b: "mid = log\<lparr>lsn := lsn mid, buf_free := buf_free mid, buf := buf mid\<rparr>"
      unfolding mid_def by (rule fill_block_frame)
    show ?thesis by (subst a, subst b) simp
  qed
  done

lemma unat_mod_512_add:
  "unat ((a + b :: 64 word) mod 512) = (unat a + unat b) mod 512"
proof -
  have "unat ((a + b) mod 512) = ((unat a + unat b) mod 2 ^ 64) mod 512"
    by (simp add: unat_mod unat_word_ariths)
  also have "\<dots> = (unat a + unat b) mod 512"
    by (rule mod_mod_cancel) simp
  finally show ?thesis .
qed

lemma unat_mod_512_lt: "unat ((x :: 64 word) mod 512) < 512"
  by (simp add: unat_mod)

lemma unat_block_room:
  assumes "unat ((x :: 64 word) mod 512) \<le> 508"
  shows "unat (512 - x mod 512 - 4) = 508 - unat (x mod 512)"
proof -
  have 1: "x mod 512 \<le> 512" using assms by (simp add: word_le_nat_alt)
  have u1: "unat (512 - x mod 512) = 512 - unat (x mod 512)"
    using unat_sub[OF 1] by simp
  have 2: "4 \<le> 512 - x mod 512" using assms u1 by (simp add: word_le_nat_alt)
  show ?thesis using unat_sub[OF 2] u1 by simp
qed

lemma fill_block_next_offset:
  assumes "unat (buf_free log mod 512) \<le> 508"
  shows "buf_free (fill_block str (512 - buf_free log mod 512 - 4) log) mod 512 = 12"
proof -
  define x where "x = buf_free log"
  have "unat ((x + (512 - x mod 512 - 4 + 16)) mod 512)
          = (unat x + unat (512 - x mod 512 - 4 + 16)) mod 512"
    by (rule unat_mod_512_add)
  moreover have "unat (512 - x mod 512 - 4 + 16) = 524 - unat (x mod 512)"
  proof -
    have "unat (512 - x mod 512 - 4) + unat (16 :: 64 word) < 2 ^ 64"
      using unat_block_room[of x] assms by (simp add: x_def)
    then have "unat (512 - x mod 512 - 4 + 16) = unat (512 - x mod 512 - 4) + 16"
      using unat_add_lem[of "512 - x mod 512 - 4" 16] by simp
    then show ?thesis using unat_block_room[of x] assms by (simp add: x_def)
  qed
  moreover have "(unat x + (524 - unat x mod 512)) mod 512 = 12"
  proof -
    have "unat x + (524 - unat x mod 512) = 524 + (unat x - unat x mod 512)"
      using mod_less_divisor[of 512 "unat x"] by simp
    also have "unat x - unat x mod 512 = 512 * (unat x div 512)"
      by (simp add: minus_mod_eq_mult_div)
    finally show ?thesis by simp
  qed
  ultimately have "unat ((x + (512 - x mod 512 - 4 + 16)) mod 512) = 12"
    by (simp add: unat_mod)
  then have "(x + (512 - x mod 512 - 4 + 16)) mod 512 = 12"
    by (simp add: word_unat_eq_iff)
  then show ?thesis by (simp add: fill_block_def x_def)
qed

lemma blocks_crossed_nat:
  fixes B N :: nat
  assumes "12 \<le> B mod 512"
  shows "(B + N + 16 * ((B mod 512 - 12 + N) div 496)) div 512
           = B div 512 + (B mod 512 - 12 + N) div 496"
proof -
  define o' where "o' = B mod 512"
  define k where "k = (o' - 12 + N) div 496"
  define t where "t = (o' - 12 + N) mod 496"
  have t: "t < 496" by (simp add: t_def)
  have "o' - 12 + N = 496 * k + t" by (simp add: k_def t_def)
  then have oN: "o' + N = 496 * k + t + 12" using assms by (simp add: o'_def)
  have B: "B = 512 * (B div 512) + o'" by (simp add: o'_def)
  have "B + N + 16 * k = 512 * (B div 512) + (o' + N) + 16 * k"
    using B by linarith
  also have "\<dots> = (t + 12) + (B div 512 + k) * 512"
    using oN by (simp add: algebra_simps)
  finally have "(B + N + 16 * k) div 512 = ((t + 12) + (B div 512 + k) * 512) div 512"
    by simp
  also have "\<dots> = B div 512 + k" using t by simp
  finally show ?thesis by (simp add: k_def o'_def)
qed

text \<open>
  \<open>log_write_low\<close> returns when the end of the log lies in the payload of its block,
  and advances the lsn and the end of the log by the length of the string plus
  \<open>LOG_BLOCK_HDR_SIZE + LOG_BLOCK_TRL_SIZE\<close> for every block that it fills.
\<close>

lemma log_write_low_advance:
  assumes "12 \<le> unat (buf_free log mod 512)" "unat (buf_free log mod 512) < 508"
    and "unat str_len + 508 < 2 ^ 64"
  shows "\<exists>log'. log_write_low str str_len log = Some log'
           \<and> lsn log' = lsn log + str_len
                + 16 * of_nat ((unat (buf_free log mod 512) - 12 + unat str_len) div 496)
           \<and> buf_free log' = buf_free log + str_len
                + 16 * of_nat ((unat (buf_free log mod 512) - 12 + unat str_len) div 496)"
  using assms
proof (induct "unat str_len" arbitrary: str str_len log rule: less_induct)
  case less
  define o' where "o' = unat (buf_free log mod 512)"
  have o: "12 \<le> o'" "o' < 508" using less.prems by (simp_all add: o'_def)
  have sum: "unat (buf_free log mod 512 + str_len) = o' + unat str_len"
    using less.prems(3) o unat_add_lem[of "buf_free log mod 512" str_len]
    by (simp add: o'_def)
  show ?case
  proof (cases "buf_free log mod 512 + str_len \<le> 508")
    case True
    then have le: "o' + unat str_len \<le> 508" using sum by (simp add: word_le_nat_alt)
    show ?thesis
    proof (cases "buf_free log mod 512 + str_len = 508")
      case full: True
      then have "o' + unat str_len = 508" using sum by (simp add: word_unat_eq_iff)
      then have k: "(o' - 12 + unat str_len) div 496 = 1" using o by simp
      show ?thesis
        using True full k
        by (simp add: log_write_low_step fill_block_def o'_def[symmetric])
    next
      case notfull: False
      then have "o' + unat str_len \<noteq> 508" using sum by (simp add: word_unat_eq_iff)
      then have k: "(o' - 12 + unat str_len) div 496 = 0" using o le by simp
      show ?thesis
        using True notfull k
        by (simp add: log_write_low_step append_in_block_def o'_def[symmetric])
    qed
  next
    case False
    then have gt: "508 < o' + unat str_len" using sum by (simp add: word_le_nat_alt)
    define len where "len = 512 - buf_free log mod 512 - 4"
    define mid where "mid = fill_block str len log"
    have ulen: "unat len = 508 - o'"
      unfolding len_def o'_def using unat_block_room[of "buf_free log"] o
      by (simp add: o'_def)
    have len_le: "len \<le> str_len" using ulen gt o by (simp add: word_le_nat_alt)
    have urest: "unat (str_len - len) = unat str_len - (508 - o')"
      using unat_sub[OF len_le] ulen by simp
    have smaller: "unat (str_len - len) < unat str_len" using urest gt o by simp
    have off: "buf_free mid mod 512 = 12"
      unfolding mid_def len_def
      by (rule fill_block_next_offset) (use o in \<open>simp add: o'_def\<close>)
    have pre: "12 \<le> unat (buf_free mid mod 512)" "unat (buf_free mid mod 512) < 508"
      "unat (str_len - len) + 508 < 2 ^ 64"
      using off urest less.prems(3) by simp_all
    obtain log' where r: "log_write_low (\<lambda>i. str (i + len)) (str_len - len) mid = Some log'"
      and l: "lsn log' = lsn mid + (str_len - len)
                + 16 * of_nat ((unat (buf_free mid mod 512) - 12 + unat (str_len - len)) div 496)"
      and b: "buf_free log' = buf_free mid + (str_len - len)
                + 16 * of_nat ((unat (buf_free mid mod 512) - 12 + unat (str_len - len)) div 496)"
      using less.hyps[OF smaller pre] by blast
    have k: "(o' - 12 + unat str_len) div 496 = 1 + unat (str_len - len) div 496"
    proof -
      have "o' - 12 + unat str_len = 496 + unat (str_len - len)" using urest gt o by simp
      then show ?thesis by simp
    qed
    have step: "log_write_low str str_len log = Some log'"
      using False r by (simp add: log_write_low_step len_def mid_def)
    have ml: "lsn mid = lsn log + (len + 16)" "buf_free mid = buf_free log + (len + 16)"
      by (simp_all add: mid_def fill_block_def)
    define k' where "k' = unat (str_len - len) div 496"
    have offu: "(unat (buf_free mid mod 512) - 12 + unat (str_len - len)) div 496 = k'"
      by (simp add: off k'_def)
    note l1 = l[unfolded offu]
    note b1 = b[unfolded offu]
    have l': "lsn log' = lsn log + (len + 16) + (str_len - len) + 16 * of_nat k'"
      using l1 unfolding ml .
    have b': "buf_free log' = buf_free log + (len + 16) + (str_len - len) + 16 * of_nat k'"
      using b1 unfolding ml .
    have kk: "(unat (buf_free log mod 512) - 12 + unat str_len) div 496 = 1 + k'"
      using k by (simp add: o'_def k'_def)
    have l'': "lsn log' = lsn log + str_len + 16 * of_nat (1 + k')"
      unfolding l' by (simp add: algebra_simps)
    have b'': "buf_free log' = buf_free log + str_len + 16 * of_nat (1 + k')"
      unfolding b' by (simp add: algebra_simps)
    show ?thesis
      unfolding kk using step l'' b'' by blast
  qed
qed

lemma mach_read_write_2: "mach_read_from_2 (mach_write_to_2 m a n) a = take_bit 16 n"
  unfolding mach_read_from_2_def mach_write_to_2_def
  apply simp
  apply (rule bit_word_eqI)
  apply (auto simp: bit_simps)
  done

lemmas block_codec_defs =
  log_block_get_data_len_def log_block_set_data_len_def log_block_get_first_rec_group_def
  log_block_set_first_rec_group_def log_block_set_checkpoint_no_def log_block_set_hdr_no_def
  log_block_init_def mach_read_from_2_def mach_write_to_2_def mach_write_to_4_def
  ut_memcpy_def

lemma log_init_fields:
  assumes "log_init K w = Some log0"
  shows "lsn log0 = LOG_START_LSN K + 12" "buf_free log0 = 12"
    "buf log0 = log_block_set_first_rec_group
                  (log_block_init (\<lambda>_. 0) 0 (LOG_START_LSN K)) 0 LOG_BLOCK_HDR_SIZE"
    "write_lsn log0 = LOG_START_LSN K" "flushed_to_disk_lsn log0 = 0"
    "current_flush_lsn log0 = 0" "n_pending_flushes log0 = 0" "flush_event log0"
    "next_checkpoint_no log0 = 0" "n_pending_checkpoint_writes log0 = 0"
    "last_checkpoint_lsn log0 = LOG_START_LSN K" "buf_next_to_write log0 = 0"
  using assms by (auto simp: log_init_def split: if_splits)

text \<open>
  Claim C4. If the end of the log lies in the payload of its block (from byte 12 up to,
  but not at, byte 508 of the block), then \<open>log_write_low\<close> with a string of \<open>N\<close> bytes
  returns and advances \<open>lsn\<close>, and \<open>buf_free\<close> with it, by
  \<open>N + k * (LOG_BLOCK_HDR_SIZE + LOG_BLOCK_TRL_SIZE)\<close>, where \<open>k\<close> is the number of block
  boundaries crossed: the block number of \<open>buf_free\<close> grows by \<open>k\<close>. In particular, on
  the log that \<open>log_init\<close> returns, appending 100 bytes and closing advances the lsn by
  100, leaves the data length of the first block at 112 and its first-rec-group offset
  at 12.
\<close>

theorem log_write_low_lsn_advance:
  "(12 \<le> buf_free log mod OS_FILE_LOG_BLOCK_SIZE
      \<and> buf_free log mod OS_FILE_LOG_BLOCK_SIZE < 508
      \<and> unat str_len + 508 < 2 ^ 64 \<longrightarrow>
      (let k = (unat (buf_free log mod OS_FILE_LOG_BLOCK_SIZE) - 12 + unat str_len) div 496
       in \<exists>log'. log_write_low str str_len log = Some log'
            \<and> lsn log' = lsn log + str_len
                 + (LOG_BLOCK_HDR_SIZE + LOG_BLOCK_TRL_SIZE) * of_nat k
            \<and> buf_free log' = buf_free log + str_len
                 + (LOG_BLOCK_HDR_SIZE + LOG_BLOCK_TRL_SIZE) * of_nat k
            \<and> (unat (buf_free log) + unat str_len + 16 * k < 2 ^ 64 \<longrightarrow>
                  unat (buf_free log') div 512 = unat (buf_free log) div 512 + k)))
   \<and> (log_init K w = Some log0 \<longrightarrow>
        (\<exists>log1. log_write_low str0 100 log0 = Some log1
           \<and> fst (log_close log1) = lsn log0 + 100
           \<and> lsn (snd (log_close log1)) = lsn log0 + 100
           \<and> log_block_get_data_len (buf (snd (log_close log1))) 0 = 112
           \<and> log_block_get_first_rec_group (buf (snd (log_close log1))) 0 = 12))"
proof (intro conjI impI)
  assume a: "12 \<le> buf_free log mod OS_FILE_LOG_BLOCK_SIZE
      \<and> buf_free log mod OS_FILE_LOG_BLOCK_SIZE < 508 \<and> unat str_len + 508 < 2 ^ 64"
  define k where "k = (unat (buf_free log mod 512) - 12 + unat str_len) div 496"
  have o: "12 \<le> unat (buf_free log mod 512)" "unat (buf_free log mod 512) < 508"
    using a by (simp_all add: word_le_nat_alt word_less_nat_alt)
  obtain log' where r: "log_write_low str str_len log = Some log'"
    and l: "lsn log' = lsn log + str_len + 16 * of_nat k"
    and b: "buf_free log' = buf_free log + str_len + 16 * of_nat k"
    using log_write_low_advance[OF o, of str_len str] a unfolding k_def by blast
  have blocks: "unat (buf_free log') div 512 = unat (buf_free log) div 512 + k"
    if no: "unat (buf_free log) + unat str_len + 16 * k < 2 ^ 64"
  proof -
    have k64: "k < 2 ^ 64" "16 * k < 2 ^ 64" using no by simp_all
    have uk: "unat (of_nat k :: 64 word) = k" using k64 by (simp add: unat_of_nat)
    have u16: "unat (16 * of_nat k :: 64 word) = 16 * k"
      using k64 uk unat_mult_lem[of "16 :: 64 word" "of_nat k"] by simp
    have u1: "unat (buf_free log + str_len) = unat (buf_free log) + unat str_len"
      using no unat_add_lem[of "buf_free log" str_len] by simp
    have u2: "unat (buf_free log') = unat (buf_free log) + unat str_len + 16 * k"
      unfolding b using no u1 u16 unat_add_lem[of "buf_free log + str_len" "16 * of_nat k"]
      by simp
    have "12 \<le> unat (buf_free log) mod 512" using o by (simp add: unat_mod)
    from blocks_crossed_nat[OF this, of "unat str_len"]
    show ?thesis unfolding u2 k_def by (simp add: unat_mod)
  qed
  show "let k = (unat (buf_free log mod OS_FILE_LOG_BLOCK_SIZE) - 12 + unat str_len) div 496
       in \<exists>log'. log_write_low str str_len log = Some log'
            \<and> lsn log' = lsn log + str_len
                 + (LOG_BLOCK_HDR_SIZE + LOG_BLOCK_TRL_SIZE) * of_nat k
            \<and> buf_free log' = buf_free log + str_len
                 + (LOG_BLOCK_HDR_SIZE + LOG_BLOCK_TRL_SIZE) * of_nat k
            \<and> (unat (buf_free log) + unat str_len + 16 * k < 2 ^ 64 \<longrightarrow>
                  unat (buf_free log') div 512 = unat (buf_free log) div 512 + k)"
    unfolding Let_def k_def[symmetric] using r l b blocks by auto
next
  assume i: "log_init K w = Some log0"
  note f = log_init_fields[OF i]
  define log1 where "log1 = append_in_block str0 100 log0"
  have r: "log_write_low str0 100 log0 = Some log1"
    by (simp add: log_write_low_step f log1_def)
  have l1: "lsn log1 = lsn log0 + 100" "buf_free log1 = 112"
    by (simp_all add: log1_def append_in_block_def f)
  have b1: "buf log1 = log_block_set_data_len (ut_memcpy (buf log0) 12 str0 100) 0 112"
    by (simp add: log1_def append_in_block_def f ut_calc_align_down_def)
  have frg: "log_block_get_first_rec_group (buf log1) 0 = 12"
    unfolding b1 f by (simp add: block_codec_defs)
  have dl: "log_block_get_data_len (buf log1) 0 = 112"
    unfolding b1 by (simp add: log_block_get_data_len_def log_block_set_data_len_def
        mach_read_write_2)
  have al: "ut_calc_align_down 112 512 = 0"
    by (simp add: ut_calc_align_down_def)
  have c: "fst (log_close log1) = lsn log0 + 100" "lsn (snd (log_close log1)) = lsn log0 + 100"
    "buf (snd (log_close log1)) = buf log1"
    by (simp_all add: log_close_summary al frg l1)
  show "\<exists>log1. log_write_low str0 100 log0 = Some log1
           \<and> fst (log_close log1) = lsn log0 + 100
           \<and> lsn (snd (log_close log1)) = lsn log0 + 100
           \<and> log_block_get_data_len (buf (snd (log_close log1))) 0 = 112
           \<and> log_block_get_first_rec_group (buf (snd (log_close log1))) 0 = 12"
    using r c dl frg by auto
qed

text \<open>
  On the fresh log, whose lsn is 8204 and whose buffer ends at byte 12: a string of 1000
  bytes crosses two block boundaries, so the lsn becomes \<open>8204 + 1000 + 2 * 16\<close>; and
  100 bytes stay in the first block.
\<close>

theorem log_write_low_lsn_advance_witness:
  "12 \<le> buf_free fresh_log mod OS_FILE_LOG_BLOCK_SIZE
   \<and> buf_free fresh_log mod OS_FILE_LOG_BLOCK_SIZE < 508
   \<and> (\<exists>log'. log_write_low (\<lambda>_. 0x41) 1000 fresh_log = Some log'
         \<and> lsn log' = 9236 \<and> buf_free log' = 1044
         \<and> unat (buf_free log') div 512 = 2)
   \<and> log_init innodb_consts server_start = Some fresh_log
   \<and> (\<exists>log1. log_write_low (\<lambda>_. 0x41) 100 fresh_log = Some log1
         \<and> fst (log_close log1) = 8304
         \<and> lsn (snd (log_close log1)) = 8304
         \<and> log_block_get_data_len (buf (snd (log_close log1))) 0 = 112
         \<and> log_block_get_first_rec_group (buf (snd (log_close log1))) 0 = 12)"
  using log_write_low_lsn_advance
    [of fresh_log 1000 "\<lambda>_. 0x41" innodb_consts server_start fresh_log "\<lambda>_. 0x41"]
  by (simp add: fresh_log_fields fresh_log_eq Let_def)

section \<open>An append across a block boundary\<close>

text \<open>Reading the buffer at the offset \<open>d\<close> of a block, past writes at other offsets.\<close>

lemma word_ne_unat: "unat (d :: 64 word) \<noteq> unat c \<Longrightarrow> d \<noteq> c"
  by auto

lemma write2_far:
  assumes "unat d < unat c \<or> unat c + 2 \<le> unat d" "unat c + 1 < 2 ^ 64"
  shows "mach_write_to_2 m (blk + c) n (blk + d) = m (blk + (d :: 64 word))"
proof -
  have u: "unat (c + 1) = unat c + 1" using assms(2) unat_add_lem[of c 1] by simp
  have "d \<noteq> c" using assms(1) by auto
  moreover have "d \<noteq> c + 1" by (rule word_ne_unat) (use assms(1) u in arith)
  ultimately show ?thesis by (simp add: mach_write_to_2_def add.assoc)
qed

lemma write4_far:
  assumes "unat d < unat c \<or> unat c + 4 \<le> unat d" "unat c + 3 < 2 ^ 64"
  shows "mach_write_to_4 m (blk + c) n (blk + d) = m (blk + (d :: 64 word))"
proof -
  have u1: "unat (c + 1) = unat c + 1" using assms(2) unat_add_lem[of c 1] by simp
  have u2: "unat (c + 2) = unat c + 2" using assms(2) unat_add_lem[of c 2] by simp
  have u3: "unat (c + 3) = unat c + 3" using assms(2) unat_add_lem[of c 3] by simp
  have "d \<noteq> c" using assms(1) by auto
  moreover have "d \<noteq> c + 1" by (rule word_ne_unat) (use assms(1) u1 in arith)
  moreover have "d \<noteq> c + 2" by (rule word_ne_unat) (use assms(1) u2 in arith)
  moreover have "d \<noteq> c + 3" by (rule word_ne_unat) (use assms(1) u3 in arith)
  ultimately show ?thesis by (simp add: mach_write_to_4_def add.assoc)
qed

lemma memcpy_far:
  assumes "unat d < unat c \<or> unat c + unat n \<le> unat d" "unat c + unat n \<le> 2 ^ 64"
  shows "ut_memcpy m (blk + c) src n (blk + d) = m (blk + (d :: 64 word))"
proof -
  have "\<not> d - c < n"
  proof (cases "c \<le> d")
    case True
    then have "unat (d - c) = unat d - unat c" by (rule unat_sub)
    moreover have "unat c + unat n \<le> unat d"
      using assms(1) True by (auto simp: word_le_nat_alt)
    ultimately show ?thesis by (simp add: word_less_nat_alt)
  next
    case False
    then have lt: "unat d < unat c" by (simp add: word_le_nat_alt)
    have "unat (d - c) = unat d + 2 ^ 64 - unat c"
      using False by (simp add: unat_sub_if' word_le_nat_alt)
    then show ?thesis using lt assms(2) by (simp add: word_less_nat_alt)
  qed
  then show ?thesis by (simp add: ut_memcpy_def)
qed

lemma memcpy_in:
  assumes "unat c \<le> unat d" "unat d < unat c + unat n"
  shows "ut_memcpy m (blk + c) src n (blk + d) = src (d - (c :: 64 word))"
proof -
  have le: "c \<le> d" using assms(1) by (simp add: word_le_nat_alt)
  have "unat (d - c) = unat d - unat c" using le by (rule unat_sub)
  then have "d - c < n" using assms by (simp add: word_less_nat_alt)
  then show ?thesis by (simp add: ut_memcpy_def)
qed

lemma crossing_offsets:
  assumes "buf_free log mod 512 = 492"
  shows "buf_free log = ut_calc_align_down (buf_free log) 512 + 492"
  using assms by (simp add: ut_calc_align_down_def)

lemma align_down_block_start: "ut_calc_align_down (blk + k) 512 = blk + k - (blk + k) mod 512"
  by (simp add: ut_calc_align_down_def)

lemma crossing_shape:
  assumes off: "buf_free log mod 512 = 492"
  shows "log_write_low str 100 log
           = Some (append_in_block (\<lambda>i. str (i + 16)) 84 (fill_block str 16 log))"
    and "buf_free (fill_block str 16 log) = ut_calc_align_down (buf_free log) 512 + 512 + 12"
    and "buf_free (fill_block str 16 log) mod 512 = 12"
proof -
  have len: "512 - buf_free log mod 512 - 4 = 16" using off by simp
  have m: "buf_free (fill_block str 16 log) mod 512 = 12"
    using fill_block_next_offset[of log str] off by (simp add: len)
  show "buf_free (fill_block str 16 log) mod 512 = 12" by (rule m)
  show "log_write_low str 100 log
           = Some (append_in_block (\<lambda>i. str (i + 16)) 84 (fill_block str 16 log))"
    by (subst log_write_low_step, simp add: off, subst log_write_low_step, simp add: m)
  show "buf_free (fill_block str 16 log) = ut_calc_align_down (buf_free log) 512 + 512 + 12"
    by (subst crossing_offsets[OF off]) (simp add: fill_block_def ut_calc_align_down_def off)
qed

lemma read2_far_write2:
  assumes "unat d + 1 < unat c \<or> unat c + 2 \<le> unat d" "unat c + 1 < 2 ^ 64"
    "unat d + 1 < 2 ^ 64"
  shows "mach_read_from_2 (mach_write_to_2 m (blk + c) n) (blk + d)
           = mach_read_from_2 m (blk + (d :: 64 word))"
proof -
  have u: "unat (d + 1) = unat d + 1" using assms(3) unat_add_lem[of d 1] by simp
  have 1: "mach_write_to_2 m (blk + c) n (blk + d) = m (blk + d)"
    by (rule write2_far) (use assms in auto)
  have 2: "mach_write_to_2 m (blk + c) n (blk + (d + 1)) = m (blk + (d + 1))"
    by (rule write2_far) (use assms u in auto)
  show ?thesis
    unfolding mach_read_from_2_def using 1 2 by (simp add: add.assoc)
qed

lemma read2_far_write4:
  assumes "unat d + 1 < unat c \<or> unat c + 4 \<le> unat d" "unat c + 3 < 2 ^ 64"
    "unat d + 1 < 2 ^ 64"
  shows "mach_read_from_2 (mach_write_to_4 m (blk + c) n) (blk + d)
           = mach_read_from_2 m (blk + (d :: 64 word))"
proof -
  have u: "unat (d + 1) = unat d + 1" using assms(3) unat_add_lem[of d 1] by simp
  have 1: "mach_write_to_4 m (blk + c) n (blk + d) = m (blk + d)"
    by (rule write4_far) (use assms in auto)
  have 2: "mach_write_to_4 m (blk + c) n (blk + (d + 1)) = m (blk + (d + 1))"
    by (rule write4_far) (use assms u in auto)
  show ?thesis
    unfolding mach_read_from_2_def using 1 2 by (simp add: add.assoc)
qed

lemma read2_far_memcpy:
  assumes "unat d + 1 < unat c \<or> unat c + unat n \<le> unat d" "unat c + unat n \<le> 2 ^ 64"
    "unat d + 1 < 2 ^ 64"
  shows "mach_read_from_2 (ut_memcpy m (blk + c) src n) (blk + d)
           = mach_read_from_2 m (blk + (d :: 64 word))"
proof -
  have u: "unat (d + 1) = unat d + 1" using assms(3) unat_add_lem[of d 1] by simp
  have 1: "ut_memcpy m (blk + c) src n (blk + d) = m (blk + d)"
    by (rule memcpy_far) (use assms in auto)
  have 2: "ut_memcpy m (blk + c) src n (blk + (d + 1)) = m (blk + (d + 1))"
    by (rule memcpy_far) (use assms u in auto)
  show ?thesis
    unfolding mach_read_from_2_def using 1 2 by (simp add: add.assoc)
qed

lemmas block_accessor_defs =
  log_block_get_data_len_def log_block_set_data_len_def log_block_get_first_rec_group_def
  log_block_set_first_rec_group_def log_block_set_checkpoint_no_def log_block_set_hdr_no_def
  log_block_init_def

text \<open>
  The buffer after 100 bytes were appended from the offset 492 of a block and the log
  was closed.
\<close>

lemma crossing_buffer:
  fixes str :: mem and log :: world
  assumes off: "buf_free log mod 512 = 492"
  defines "blk \<equiv> ut_calc_align_down (buf_free log) 512"
  defines "log1 \<equiv> append_in_block (\<lambda>i. str (i + 16)) 84 (fill_block str 16 log)"
  shows "lsn log1 = lsn log + 116" "buf_free log1 = buf_free log + 116"
    and "log_block_get_data_len (buf log1) blk = 512"
    and "log_block_get_data_len (buf log1) (blk + 512) = 96"
    and "log_block_get_first_rec_group (buf log1) (blk + 512) = 0"
    and "fst (log_close log1) = lsn log + 116"
    and "buf_free (snd (log_close log1)) = buf_free log + 116"
    and "log_block_get_first_rec_group (buf (snd (log_close log1))) (blk + 512) = 96"
    and "log_block_get_data_len (buf (snd (log_close log1))) blk = 512"
    and "\<And>d. 492 \<le> unat d \<Longrightarrow> unat d < 508 \<Longrightarrow>
            buf (snd (log_close log1)) (blk + d) = str (d - 492)"
    and "\<And>d. 524 \<le> unat d \<Longrightarrow> unat d < 608 \<Longrightarrow>
            buf (snd (log_close log1)) (blk + d) = str (d - 524 + 16)"
    and "\<And>d. 508 \<le> unat d \<Longrightarrow> unat d < 512 \<Longrightarrow>
            buf (snd (log_close log1)) (blk + d) = buf log (blk + d)"
proof -
  define mid where "mid = fill_block str 16 log"
  define cp where "cp = next_checkpoint_no log"
  have bf: "buf_free log = blk + 492" unfolding blk_def by (rule crossing_offsets[OF off])
  have bfm: "buf_free mid = blk + 524"
    using crossing_shape(2)[OF off, of str] by (simp add: mid_def blk_def)
  have mm: "buf_free mid mod 512 = 12"
    using crossing_shape(3)[OF off, of str] by (simp add: mid_def)
  have mm': "(blk + 524) mod 512 = 12" using mm unfolding bfm .
  have adm: "ut_calc_align_down (blk + 524) 512 = blk + 512"
    unfolding ut_calc_align_down_def mm' by simp
  have bm: "buf mid = log_block_init
                  (log_block_set_checkpoint_no
                     (log_block_set_data_len
                        (log_block_set_data_len (ut_memcpy (buf log) (blk + 492) str 16) blk 508)
                        blk 512) blk cp) (blk + 512) (lsn log + 32)"
    by (simp add: mid_def fill_block_def blk_def[symmetric] bf[symmetric] cp_def)
  have lm: "lsn mid = lsn log + 32" by (simp add: mid_def fill_block_def)
  have n1: "blk + 512 + 0 = blk + 512" "blk + 512 + 4 = blk + 516"
    "blk + 512 + 6 = blk + 518" "blk + 512 + 8 = blk + 520" "blk + 0 = blk"
    by simp_all
  have b1: "buf log1 = log_block_set_data_len
                         (ut_memcpy (buf mid) (blk + 524) (\<lambda>i. str (i + 16)) 84) (blk + 512) 96"
    unfolding log1_def mid_def[symmetric] append_in_block_def
    by (simp add: bfm adm mm')
  show l1: "lsn log1 = lsn log + 116"
    unfolding log1_def mid_def[symmetric] append_in_block_def by (simp add: lm)
  show f1: "buf_free log1 = buf_free log + 116"
    unfolding log1_def mid_def[symmetric] append_in_block_def by (simp add: bfm bf)
  show dl_old: "log_block_get_data_len (buf log1) blk = 512"
    unfolding b1 bm block_accessor_defs n1
    by (simp add: read2_far_write2 read2_far_write4 read2_far_memcpy mach_read_write_2)
  show dl_new: "log_block_get_data_len (buf log1) (blk + 512) = 96"
    unfolding b1 bm block_accessor_defs n1
    by (simp add: mach_read_write_2)
  show frg0: "log_block_get_first_rec_group (buf log1) (blk + 512) = 0"
    unfolding b1 bm block_accessor_defs n1
    by (simp add: read2_far_write2 read2_far_write4 read2_far_memcpy mach_read_write_2)
  have f1': "buf_free log1 = blk + 608" using f1 bf by simp
  have m1: "(blk + 608) mod 512 = 96"
  proof -
    have "unat ((blk + 608) mod 512) = (unat blk + 608) mod 512"
      using unat_mod_512_add[of blk 608] by simp
    moreover have "unat blk mod 512 = 0"
      unfolding blk_def by (simp add: unat_align_down minus_mod_eq_mult_div)
    moreover have "(unat blk + 608) mod 512 = (unat blk mod 512 + 608 mod 512) mod 512"
      by (rule mod_add_eq[symmetric])
    ultimately have "unat ((blk + 608) mod 512) = 96"
      by simp
    then show ?thesis by (simp add: word_unat_eq_iff)
  qed
  have ad1: "ut_calc_align_down (blk + 608) 512 = blk + 512"
    unfolding ut_calc_align_down_def m1 by simp
  have b2: "buf (snd (log_close log1))
              = log_block_set_first_rec_group (buf log1) (blk + 512) 96"
    by (simp add: log_close_summary f1' ad1 frg0 dl_new)
  show "fst (log_close log1) = lsn log + 116" by (simp add: log_close_summary l1)
  show "buf_free (snd (log_close log1)) = buf_free log + 116"
    by (simp add: log_close_summary f1)
  show "log_block_get_first_rec_group (buf (snd (log_close log1))) (blk + 512) = 96"
    unfolding b2 block_accessor_defs n1 by (simp add: mach_read_write_2)
  show "log_block_get_data_len (buf (snd (log_close log1))) blk = 512"
    unfolding b2 b1 bm block_accessor_defs n1
    by (simp add: read2_far_write2 read2_far_write4 read2_far_memcpy mach_read_write_2)
  show "buf (snd (log_close log1)) (blk + d) = str (d - 492)"
    if "492 \<le> unat d" "unat d < 508" for d
    unfolding b2 b1 bm block_accessor_defs n1 using that
    by (simp add: write2_far write4_far memcpy_far memcpy_in)
  show "buf (snd (log_close log1)) (blk + d) = str (d - 524 + 16)"
    if "524 \<le> unat d" "unat d < 608" for d
    unfolding b2 b1 bm block_accessor_defs n1 using that
    by (simp add: write2_far write4_far memcpy_far memcpy_in)
  show "buf (snd (log_close log1)) (blk + d) = buf log (blk + d)"
    if "508 \<le> unat d" "unat d < 512" for d
    unfolding b2 b1 bm block_accessor_defs n1 using that
    by (simp add: write2_far write4_far memcpy_far memcpy_in)
qed

lemma appended_480_eq:
  "appended_480 = snd (log_close (append_in_block (\<lambda>_. 0x41) 480 fresh_log))"
  by (simp add: appended_480_def log_write_low_step fresh_log_fields)

lemma appended_480_fields:
  "buf_free appended_480 = 492" "lsn appended_480 = 8684"
  "buf appended_480 508 = 0"
proof -
  have frg: "log_block_get_first_rec_group
               (buf (append_in_block (\<lambda>_. 0x41) 480 fresh_log)) 0 = 12"
    using log_init_fields(3)[OF fresh_log_eq]
    by (simp add: append_in_block_def fresh_log_fields ut_calc_align_down_def
        block_codec_defs)
  have al: "ut_calc_align_down 492 512 = 0" by (simp add: ut_calc_align_down_def)
  show "buf_free appended_480 = 492" "lsn appended_480 = 8684"
    by (simp_all add: appended_480_eq log_close_summary append_in_block_def fresh_log_fields)
  have "buf appended_480 = buf (append_in_block (\<lambda>_. 0x41) 480 fresh_log)"
    using frg by (simp add: appended_480_eq log_close_summary append_in_block_def
        fresh_log_fields al)
  then show "buf appended_480 508 = 0"
    using log_init_fields(3)[OF fresh_log_eq]
    by (simp add: append_in_block_def fresh_log_fields ut_calc_align_down_def
        block_codec_defs)
qed

text \<open>
  Claim C8, as stated, fails. From the offset \<open>H + 480 = 492\<close> of a block only 16 bytes
  fit before the trailer, which begins at the offset 508: of the 100 bytes \<^verbatim>\<open>0x42\<close> the
  sixteenth is at the offset 507, the byte at 508 is still the 0 of the trailer, and the
  seventeenth is at the offset 524, in the payload of the second block. So 84 bytes, not
  68, go into the second block, and its first-rec-group offset is 96 after the close,
  not 80.
\<close>

theorem log_write_low_crossing_counterexample:
  "buf_free appended_480 mod OS_FILE_LOG_BLOCK_SIZE = LOG_BLOCK_HDR_SIZE + 480
   \<and> crossing_byte 507 = Some 0x42
   \<and> crossing_byte 508 = Some 0
   \<and> crossing_byte 524 = Some 0x42
   \<and> crossing_first_rec_group = Some 96
   \<and> crossing_first_rec_group \<noteq> Some 80"
proof -
  have off: "buf_free appended_480 mod 512 = 492" by (simp add: appended_480_fields)
  have blk: "ut_calc_align_down (buf_free appended_480) 512 = 0"
    by (simp add: appended_480_fields ut_calc_align_down_def)
  note sh = crossing_shape(1)[OF off, where str = "\<lambda>_. 0x42"]
  note cb = crossing_buffer[OF off, where str = "\<lambda>_. 0x42", unfolded blk]
  have b507: "crossing_byte 507 = Some 0x42"
    using cb(10)[of 507] by (simp add: crossing_byte_def crossing_run_def sh)
  have b508: "crossing_byte 508 = Some 0"
    using cb(12)[of 508]
    by (simp add: crossing_byte_def crossing_run_def sh appended_480_fields)
  have b524: "crossing_byte 524 = Some 0x42"
    using cb(11)[of 524] by (simp add: crossing_byte_def crossing_run_def sh)
  have frg: "crossing_first_rec_group = Some 96"
    using cb(8) by (simp add: crossing_first_rec_group_def crossing_run_def sh)
  show ?thesis by (simp add: off b507 b508 b524 frg)
qed

text \<open>
  Claim C8, amended. With block size 512, header 12 and trailer 4, if \<open>buf_free\<close> points
  \<open>H + 480\<close> bytes into its block and 100 bytes are appended by \<open>log_write_low\<close>, then the
  first 16 bytes go into the current block, which is full with them (496 bytes of
  payload; its data length is stamped 512), the remaining 84 bytes go into the payload of
  the newly initialised next block, whose first-rec-group offset is 0 until \<open>log_close\<close>
  sets it to \<open>12 + 84 = 96\<close>, and the lsn advances by 100 plus one header and trailer for
  the crossed boundary.
\<close>

theorem log_write_low_crossing:
  "buf_free log mod OS_FILE_LOG_BLOCK_SIZE = LOG_BLOCK_HDR_SIZE + 480 \<longrightarrow>
     (let blk = ut_calc_align_down (buf_free log) OS_FILE_LOG_BLOCK_SIZE;
          log1 = append_in_block (\<lambda>i. str (i + 16)) 84 (fill_block str 16 log);
          log2 = snd (log_close log1)
      in log_write_low str 100 log = Some log1
         \<and> buf_free (fill_block str 16 log)
              = blk + OS_FILE_LOG_BLOCK_SIZE + LOG_BLOCK_HDR_SIZE
         \<and> (\<forall>i. i < 16 \<longrightarrow> buf log2 (buf_free log + i) = str i)
         \<and> log_block_get_data_len (buf log2) blk = OS_FILE_LOG_BLOCK_SIZE
         \<and> (\<forall>i. i < 84 \<longrightarrow>
               buf log2 (blk + OS_FILE_LOG_BLOCK_SIZE + LOG_BLOCK_HDR_SIZE + i) = str (16 + i))
         \<and> log_block_get_first_rec_group (buf log1) (blk + OS_FILE_LOG_BLOCK_SIZE) = 0
         \<and> log_block_get_first_rec_group (buf log2) (blk + OS_FILE_LOG_BLOCK_SIZE) = 96
         \<and> fst (log_close log1)
              = lsn log + 100 + (LOG_BLOCK_HDR_SIZE + LOG_BLOCK_TRL_SIZE)
         \<and> buf_free log2
              = buf_free log + 100 + (LOG_BLOCK_HDR_SIZE + LOG_BLOCK_TRL_SIZE))"
proof
  assume "buf_free log mod OS_FILE_LOG_BLOCK_SIZE = LOG_BLOCK_HDR_SIZE + 480"
  then have off: "buf_free log mod 512 = 492" by simp
  define blk where "blk = ut_calc_align_down (buf_free log) 512"
  define log1 where "log1 = append_in_block (\<lambda>i. str (i + 16)) 84 (fill_block str 16 log)"
  define log2 where "log2 = snd (log_close log1)"
  note sh = crossing_shape[OF off, where str = str, folded blk_def log1_def]
  note cb = crossing_buffer[OF off, where str = str, folded blk_def log1_def, folded log2_def]
  have bf: "buf_free log = blk + 492" unfolding blk_def by (rule crossing_offsets[OF off])
  have first: "buf log2 (buf_free log + i) = str i" if "i < 16" for i
  proof -
    have ui: "unat i < 16" using that by (simp add: word_less_nat_alt)
    then have u: "unat (492 + i) = 492 + unat i"
      using unat_add_lem[of 492 i] by simp
    have r: "buf log2 (blk + (492 + i)) = str (492 + i - 492)"
      by (rule cb(10)) (use u ui in simp_all)
    have e: "buf_free log + i = blk + (492 + i)" by (simp add: bf add.assoc)
    have e2: "492 + i - 492 = i" by simp
    show ?thesis unfolding e using r unfolding e2 .
  qed
  have rest: "buf log2 (blk + 512 + 12 + i) = str (16 + i)" if "i < 84" for i
  proof -
    have ui: "unat i < 84" using that by (simp add: word_less_nat_alt)
    then have u: "unat (524 + i) = 524 + unat i"
      using unat_add_lem[of 524 i] by simp
    have r: "buf log2 (blk + (524 + i)) = str (524 + i - 524 + 16)"
      by (rule cb(11)) (use u ui in simp_all)
    have e: "blk + 512 + 12 + i = blk + (524 + i)" by simp
    have e2: "524 + i - 524 + 16 = 16 + i" by simp
    show ?thesis unfolding e using r unfolding e2 .
  qed
  have l: "fst (log_close log1) = lsn log + 100 + 16" using cb(6) by simp
  have b: "buf_free log2 = buf_free log + 100 + 16" using cb(7) by simp
  show "let blk = ut_calc_align_down (buf_free log) OS_FILE_LOG_BLOCK_SIZE;
          log1 = append_in_block (\<lambda>i. str (i + 16)) 84 (fill_block str 16 log);
          log2 = snd (log_close log1)
      in log_write_low str 100 log = Some log1
         \<and> buf_free (fill_block str 16 log)
              = blk + OS_FILE_LOG_BLOCK_SIZE + LOG_BLOCK_HDR_SIZE
         \<and> (\<forall>i. i < 16 \<longrightarrow> buf log2 (buf_free log + i) = str i)
         \<and> log_block_get_data_len (buf log2) blk = OS_FILE_LOG_BLOCK_SIZE
         \<and> (\<forall>i. i < 84 \<longrightarrow>
               buf log2 (blk + OS_FILE_LOG_BLOCK_SIZE + LOG_BLOCK_HDR_SIZE + i) = str (16 + i))
         \<and> log_block_get_first_rec_group (buf log1) (blk + OS_FILE_LOG_BLOCK_SIZE) = 0
         \<and> log_block_get_first_rec_group (buf log2) (blk + OS_FILE_LOG_BLOCK_SIZE) = 96
         \<and> fst (log_close log1)
              = lsn log + 100 + (LOG_BLOCK_HDR_SIZE + LOG_BLOCK_TRL_SIZE)
         \<and> buf_free log2
              = buf_free log + 100 + (LOG_BLOCK_HDR_SIZE + LOG_BLOCK_TRL_SIZE)"
    unfolding Let_def blk_def[symmetric] log1_def[symmetric] log2_def[symmetric]
    using sh(1) sh(2) first cb(9) rest cb(5) cb(8) l b
    by (intro conjI allI impI) simp_all
qed

text \<open>
  After the 480 bytes the lsn is 8684 and the buffer ends at 492; the 100 bytes take the
  lsn to 8800 and the end of the buffer to 608.
\<close>

theorem log_write_low_crossing_witness:
  "buf_free appended_480 mod OS_FILE_LOG_BLOCK_SIZE = LOG_BLOCK_HDR_SIZE + 480
   \<and> log_write_low (\<lambda>_. 0x42) 100 appended_480
       = Some (append_in_block (\<lambda>_. 0x42) 84 (fill_block (\<lambda>_. 0x42) 16 appended_480))
   \<and> buf_free (fill_block (\<lambda>_. 0x42) 16 appended_480) = 524
   \<and> fst (log_close (append_in_block (\<lambda>_. 0x42) 84
                        (fill_block (\<lambda>_. 0x42) 16 appended_480))) = 8800
   \<and> buf_free (snd (log_close (append_in_block (\<lambda>_. 0x42) 84
                        (fill_block (\<lambda>_. 0x42) 16 appended_480)))) = 608
   \<and> log_block_get_first_rec_group
        (buf (snd (log_close (append_in_block (\<lambda>_. 0x42) 84
                        (fill_block (\<lambda>_. 0x42) 16 appended_480))))) 512 = 96"
proof -
  have al: "ut_calc_align_down 492 512 = 0" by (simp add: ut_calc_align_down_def)
  show ?thesis
    using log_write_low_crossing [of appended_480 "\<lambda>_. 0x42"]
    by (simp add: appended_480_fields(1,2) Let_def al)
qed

section \<open>Writing the log buffer to the log files\<close>

lemma log_sys_write_completion_nothing_left:
  "write_end_offset log = buf_free log \<Longrightarrow>
     buf_next_to_write (log_sys_write_completion log) = buf_free (log_sys_write_completion log)"
  by (simp add: log_sys_write_completion_summary)

lemma checkpoint_writes_append:
  "checkpoint_writes (cs @ ds) = checkpoint_writes cs @ checkpoint_writes ds"
  by (induction cs rule: checkpoint_writes.induct) simp_all

lemma log_group_file_header_flush_frame:
  assumes "log_group_file_header_flush K grp nth_file start_lsn log = Some log'"
  shows "log' = log\<lparr>n_log_ios := n_log_ios log', fil_calls := fil_calls log'\<rparr>"
    and "checkpoint_writes (fil_calls log') = checkpoint_writes (fil_calls log)"
  using assms
  by (auto simp: log_group_file_header_flush_def Let_def checkpoint_writes_append
      split: if_splits)

text \<open>
  \<open>log_group_write_buf\<close> changes the log buffer (the checksums of the blocks written),
  the count of i/o requests and the calls made to the file layer only, and it writes no
  checkpoint.
\<close>

lemma log_group_write_buf_loop_frame:
  assumes "log_group_write_buf_loop K grp bufp len start_lsn write_header log = Some log'"
  shows "log' = log\<lparr>buf := buf log', n_log_ios := n_log_ios log',
                     fil_calls := fil_calls log'\<rparr>
         \<and> checkpoint_writes (fil_calls log') = checkpoint_writes (fil_calls log)"
  apply (rule log_group_write_buf_loop.raw_induct
      [where P = "\<lambda>K grp bufp len start_lsn write_header log log'.
          log' = log\<lparr>buf := buf log', n_log_ios := n_log_ios log',
                       fil_calls := fil_calls log'\<rparr>
          \<and> checkpoint_writes (fil_calls log') = checkpoint_writes (fil_calls log)",
        OF _ assms])
  subgoal premises prems for f K grp bufp len start_lsn write_header log log'
  proof (cases "len = 0")
    case True
    then show ?thesis using prems(2) by simp
  next
    case False
    from prems(2) False obtain next_offset where
      no: "log_group_calc_lsn_offset K start_lsn grp = Some next_offset"
      by (auto split: option.splits)
    define hdr where "hdr = (if write_header \<and> next_offset mod file_size grp = LOG_FILE_HDR_SIZE K
                   then log_group_file_header_flush K grp (next_offset div file_size grp)
                          start_lsn log
                   else Some log)"
    from prems(2) False no obtain log1 where l1: "hdr = Some log1"
      unfolding hdr_def by (auto split: option.splits)
    have f1: "log1 = log\<lparr>n_log_ios := n_log_ios log1, fil_calls := fil_calls log1\<rparr>"
      using l1 unfolding hdr_def
      by (auto split: if_splits dest: log_group_file_header_flush_frame(1))
    have c1: "checkpoint_writes (fil_calls log1) = checkpoint_writes (fil_calls log)"
      using l1 unfolding hdr_def
      by (auto split: if_splits dest: log_group_file_header_flush_frame(2))
    define write_len where "write_len =
                       (if (next_offset mod file_size grp) + len > file_size grp
                        then file_size grp - (next_offset mod file_size grp) else len)"
    define b where "b = fold (\<lambda>i m. log_block_store_checksum K m
                                        (bufp + of_nat i * OS_FILE_LOG_BLOCK_SIZE))
                           [0..<unat (write_len div OS_FILE_LOG_BLOCK_SIZE)] (buf log1)"
    define log2 where "log2 = log1\<lparr>buf := b, n_log_ios := n_log_ios log1 + 1,
                                    fil_calls := fil_calls log1 @
                                      [Write_blocks True (space_id grp)
                                         (next_offset div UNIV_PAGE_SIZE K)
                                         (next_offset mod UNIV_PAGE_SIZE K) write_len b bufp]\<rparr>"
    have f2: "log2 = log\<lparr>buf := buf log2, n_log_ios := n_log_ios log2,
                         fil_calls := fil_calls log2\<rparr>"
      unfolding log2_def by (subst f1) simp
    have c2: "checkpoint_writes (fil_calls log2) = checkpoint_writes (fil_calls log)"
      unfolding log2_def using c1 by (simp add: checkpoint_writes_append)
    have step: "(if write_len < len
                 then f K grp (bufp + write_len) (len - write_len) (start_lsn + write_len)
                        True log2
                 else Some log2) = Some log'"
      using prems(2) False no l1[unfolded hdr_def]
      by (simp add: Let_def write_len_def b_def log2_def split: if_splits)
    show ?thesis
    proof (cases "write_len < len")
      case True
      with step have "f K grp (bufp + write_len) (len - write_len) (start_lsn + write_len)
                        True log2 = Some log'" by simp
      then have a: "log' = log2\<lparr>buf := buf log', n_log_ios := n_log_ios log',
                                 fil_calls := fil_calls log'\<rparr>
                    \<and> checkpoint_writes (fil_calls log') = checkpoint_writes (fil_calls log2)"
        by (rule prems(1))
      have "log' = log\<lparr>buf := buf log', n_log_ios := n_log_ios log',
                         fil_calls := fil_calls log'\<rparr>"
        by (subst conjunct1[OF a], subst f2) simp
      then show ?thesis using a c2 by simp
    next
      case False
      with step have "log' = log2" by simp
      then show ?thesis using f2 c2 by simp
    qed
  qed
  done

lemma log_group_write_buf_frame:
  assumes "log_group_write_buf K grp bufp len start_lsn new_data_offset log = Some log'"
  shows "log' = log\<lparr>buf := buf log', n_log_ios := n_log_ios log',
                     fil_calls := fil_calls log'\<rparr>"
    and "checkpoint_writes (fil_calls log') = checkpoint_writes (fil_calls log)"
  using assms unfolding log_group_write_buf_def
  by (auto split: if_splits dest: log_group_write_buf_loop_frame)

lemma log_group_write_buf_change:
  assumes "log_group_write_buf K grp bufp len start_lsn new_data_offset log = Some log'"
  shows "\<exists>b n c. log' = log\<lparr>buf := b, n_log_ios := n, fil_calls := c\<rparr>
                 \<and> checkpoint_writes c = checkpoint_writes (fil_calls log)"
  using log_group_write_buf_frame[OF assms] by blast

lemma log_group_set_fields_change:
  assumes "log_group_set_fields K grp l = Some grp'"
  shows "\<exists>off. grp' = grp\<lparr>lsn_offset := off, group_lsn := l\<rparr>"
  using assms by (auto simp: log_group_set_fields_def split: bind_splits)

lemma log_write_up_to_pad_change:
  assumes "log_write_up_to_pad K grp area_start area_end log = Some (pad_size, log')"
  shows "\<exists>b. log' = log\<lparr>buf := b\<rparr>"
proof -
  have "log' = log\<lparr>buf := buf log'\<rparr>"
    using assms unfolding log_write_up_to_pad_def Let_def
    by (auto split: option.splits if_splits)
  then show ?thesis by blast
qed

text \<open>The last part of \<open>log_write_up_to\<close>, field by field.\<close>

lemma log_write_up_to_flush_fields:
  assumes "log_write_up_to_flush f log = Some log'"
  shows "log' = log\<lparr>flushed_to_disk_lsn := flushed_to_disk_lsn log',
                     fil_calls := fil_calls log',
                     n_pending_flushes := n_pending_flushes log',
                     flush_event := flush_event log'\<rparr>"
    and "flushed_to_disk_lsn log' = write_lsn log
         \<or> (f \<and> flushed_to_disk_lsn log' = current_flush_lsn log)
         \<or> (\<not> f \<and> flushed_to_disk_lsn log' = flushed_to_disk_lsn log)"
    and "f \<Longrightarrow> flushed_to_disk_lsn log' = write_lsn log
         \<or> flushed_to_disk_lsn log' = current_flush_lsn log"
    and "f \<Longrightarrow> n_pending_flushes log = 1 \<and> n_pending_flushes log' = 0 \<and> flush_event log'"
    and "\<not> f \<Longrightarrow> n_pending_flushes log' = n_pending_flushes log
           \<and> flush_event log' = flush_event log \<and> fil_calls log' = fil_calls log"
    and "checkpoint_writes (fil_calls log') = checkpoint_writes (fil_calls log)"
  using assms unfolding log_write_up_to_flush_def Let_def
  by (auto split: list.splits option.splits if_splits simp: checkpoint_writes_append)

text \<open>
  What the write section of \<open>log_write_up_to\<close> changes: the buffer, the i/o count, the
  calls to the file layer, the offsets of the first group and the fields of the write
  and of the flush.
\<close>

lemma log_write_up_to_write_fields:
  assumes "log_write_up_to_write K f log = Some log'"
  shows "log' = log\<lparr>buf := buf log', n_log_ios := n_log_ios log',
                     fil_calls := fil_calls log', log_groups := log_groups log',
                     write_end_offset := write_end_offset log',
                     write_lsn := write_lsn log',
                     buf_next_to_write := buf_next_to_write log',
                     buf_free := buf_free log',
                     flushed_to_disk_lsn := flushed_to_disk_lsn log',
                     current_flush_lsn := current_flush_lsn log',
                     n_pending_flushes := n_pending_flushes log',
                     flush_event := flush_event log'\<rparr>"
    and "write_lsn log' = lsn log"
    and "flushed_to_disk_lsn log' = lsn log
         \<or> (\<not> f \<and> flushed_to_disk_lsn log' = flushed_to_disk_lsn log)"
    and "f \<Longrightarrow> current_flush_lsn log' = lsn log"
    and "buf_next_to_write log' = buf_free log'"
    and "map checkpoint_buf (log_groups log') = map checkpoint_buf (log_groups log)"
    and "checkpoint_writes (fil_calls log') = checkpoint_writes (fil_calls log)"
    and "f \<Longrightarrow> n_pending_flushes log = 0 \<and> n_pending_flushes log' = 0 \<and> flush_event log'"
proof -
  define logf where "logf = (if f
                 then log\<lparr>n_pending_flushes := n_pending_flushes log + 1,
                           current_flush_lsn := lsn log, flush_event := False\<rparr>
                 else log)"
  from assms obtain grp groups pad_size log2 log3 grp' b0 where
    g: "log_groups logf = grp # groups"
    and pad: "log_write_up_to_pad K grp
                (ut_calc_align_down (buf_next_to_write logf) OS_FILE_LOG_BLOCK_SIZE)
                (ut_calc_align (buf_free logf) OS_FILE_LOG_BLOCK_SIZE)
                (logf\<lparr>buf := b0\<rparr>) = Some (pad_size, log2)"
    and wb: "log_group_write_buf K grp
               (ut_calc_align_down (buf_next_to_write logf) OS_FILE_LOG_BLOCK_SIZE)
               (ut_calc_align (buf_free logf) OS_FILE_LOG_BLOCK_SIZE
                  - ut_calc_align_down (buf_next_to_write logf) OS_FILE_LOG_BLOCK_SIZE
                  + pad_size)
               (ut_uint64_align_down (write_lsn log2) OS_FILE_LOG_BLOCK_SIZE)
               (buf_next_to_write logf
                  - ut_calc_align_down (buf_next_to_write logf) OS_FILE_LOG_BLOCK_SIZE)
               log2 = Some log3"
    and sf: "log_group_set_fields K grp (write_lsn log3) = Some grp'"
    and fl: "log_write_up_to_flush f
               (log_sys_write_completion
                  (log3\<lparr>write_end_offset := buf_free log3, log_groups := grp' # groups\<rparr>))
             = Some log'"
    unfolding log_write_up_to_write_def Let_def logf_def[symmetric]
    by (auto split: list.splits option.splits prod.splits)
  obtain b2 where l2: "log2 = logf\<lparr>buf := b2\<rparr>"
    using log_write_up_to_pad_change[OF pad] by auto
  obtain b3 n3 c3 where l3: "log3 = logf\<lparr>buf := b3, n_log_ios := n3, fil_calls := c3\<rparr>"
    and c3: "checkpoint_writes c3 = checkpoint_writes (fil_calls logf)"
    using log_group_write_buf_change[OF wb] unfolding l2 by auto
  obtain off where g': "grp' = grp\<lparr>lsn_offset := off, group_lsn := write_lsn log3\<rparr>"
    using log_group_set_fields_change[OF sf] by auto
  define log5 where "log5 = log_sys_write_completion
                  (log3\<lparr>write_end_offset := buf_free log3, log_groups := grp' # groups\<rparr>)"
  note ff = log_write_up_to_flush_fields[OF fl[folded log5_def]]
  have l5: "log5 = logf\<lparr>buf := buf log5, n_log_ios := n3, fil_calls := c3,
                         log_groups := grp' # groups,
                         write_end_offset := buf_free logf,
                         write_lsn := lsn logf,
                         buf_next_to_write := buf_free log5,
                         buf_free := buf_free log5\<rparr>"
    unfolding log5_def l3 by (simp add: log_sys_write_completion_summary)
  have lf: "logf = log\<lparr>n_pending_flushes := n_pending_flushes logf,
                        current_flush_lsn := current_flush_lsn logf,
                        flush_event := flush_event logf\<rparr>"
    unfolding logf_def by simp
  have lsnf: "lsn logf = lsn log" "flushed_to_disk_lsn logf = flushed_to_disk_lsn log"
    "log_groups logf = log_groups log" "fil_calls logf = fil_calls log"
    "f \<Longrightarrow> current_flush_lsn logf = lsn log"
    "f \<Longrightarrow> n_pending_flushes logf = n_pending_flushes log + 1"
    unfolding logf_def by simp_all
  have f5: "write_lsn log5 = lsn log" "lsn log5 = lsn log"
    "current_flush_lsn log5 = current_flush_lsn logf"
    "flushed_to_disk_lsn log5 = flushed_to_disk_lsn log"
    "n_pending_flushes log5 = n_pending_flushes logf"
    "buf_next_to_write log5 = buf_free log5"
    "log_groups log5 = grp' # groups" "fil_calls log5 = c3"
    by (subst l5, simp add: lsnf)+
  show "log' = log\<lparr>buf := buf log', n_log_ios := n_log_ios log',
                     fil_calls := fil_calls log', log_groups := log_groups log',
                     write_end_offset := write_end_offset log',
                     write_lsn := write_lsn log',
                     buf_next_to_write := buf_next_to_write log',
                     buf_free := buf_free log',
                     flushed_to_disk_lsn := flushed_to_disk_lsn log',
                     current_flush_lsn := current_flush_lsn log',
                     n_pending_flushes := n_pending_flushes log',
                     flush_event := flush_event log'\<rparr>"
  proof -
    obtain a c n e where e1: "log' = log5\<lparr>flushed_to_disk_lsn := a, fil_calls := c,
                                          n_pending_flushes := n, flush_event := e\<rparr>"
      using ff(1) by (rule that)
    obtain b5 x where e2: "log5 = logf\<lparr>buf := b5, n_log_ios := n3, fil_calls := c3,
                         log_groups := grp' # groups,
                         write_end_offset := buf_free logf,
                         write_lsn := lsn logf,
                         buf_next_to_write := x,
                         buf_free := x\<rparr>"
      using l5 by (rule that)
    obtain np cf fe where e3: "logf = log\<lparr>n_pending_flushes := np,
                        current_flush_lsn := cf, flush_event := fe\<rparr>"
      using lf by (rule that)
    show ?thesis unfolding e1 e2 e3 by simp
  qed
  show "write_lsn log' = lsn log"
    by (subst ff(1)) (simp add: f5)
  show "flushed_to_disk_lsn log' = lsn log
         \<or> (\<not> f \<and> flushed_to_disk_lsn log' = flushed_to_disk_lsn log)"
    using ff(2) lsnf(5) by (auto simp: f5)
  show "current_flush_lsn log' = lsn log" if f
    using that lsnf(5) by (subst ff(1)) (simp add: f5)
  show "buf_next_to_write log' = buf_free log'"
    by (subst ff(1), subst (3) ff(1)) (simp add: f5)
  have "log_groups log' = grp' # groups"
    by (subst ff(1)) (simp add: f5)
  then show "map checkpoint_buf (log_groups log') = map checkpoint_buf (log_groups log)"
    using g unfolding lsnf g' by simp
  show "checkpoint_writes (fil_calls log') = checkpoint_writes (fil_calls log)"
    using ff(6) c3 by (simp add: f5 lsnf)
  show "n_pending_flushes log = 0 \<and> n_pending_flushes log' = 0 \<and> flush_event log'" if f
  proof -
    have "n_pending_flushes log + 1 = 1" using ff(4)[OF that] lsnf(6)[OF that] by (simp add: f5)
    then show ?thesis using ff(4)[OF that] by simp
  qed
qed

text \<open>
  A call of \<open>log_write_up_to\<close> that returns has either changed nothing or gone through
  the write section, and then no flush was pending.
\<close>

lemma log_write_up_to_cases:
  assumes "log_write_up_to K l f log = Some log'"
  shows "log' = log
         \<or> (log_write_up_to_write K f log = Some log' \<and> \<not> recv_no_ibuf_operations log
              \<and> \<not> (if f then flushed_to_disk_lsn log else write_lsn log) \<ge> l)"
  apply (rule log_write_up_to.raw_induct
      [where P = "\<lambda>K l f log log'. log' = log
         \<or> (log_write_up_to_write K f log = Some log' \<and> \<not> recv_no_ibuf_operations log
              \<and> \<not> (if f then flushed_to_disk_lsn log else write_lsn log) \<ge> l)",
        OF _ assms])
  subgoal premises prems for g K l f log log'
    using prems(2) prems(1)[of K l f log log']
    by (auto split: if_splits)
  done

text \<open>
  Claim C6. If the lsn that the call asks for is already written (or, for a flush,
  already flushed), \<open>log_write_up_to\<close> returns the state it was given. Two consecutive
  calls \<open>log_write_up_to(L, false)\<close> have the effect of one: if the first one returns,
  the second one returns the state that the first one left, and if the first one does
  not return, there is no second one.
\<close>

theorem log_write_up_to_idempotent:
  "((if flush_to_disk then flushed_to_disk_lsn log else write_lsn log) \<ge> l \<longrightarrow>
      log_write_up_to K l flush_to_disk log = Some log)
   \<and> Option.bind (log_write_up_to K l False log) (log_write_up_to K l False)
       = log_write_up_to K l False log"
proof (intro conjI impI)
  assume "(if flush_to_disk then flushed_to_disk_lsn log else write_lsn log) \<ge> l"
  then show "log_write_up_to K l flush_to_disk log = Some log"
    by (subst log_write_up_to.simps) simp
next
  show "Option.bind (log_write_up_to K l False log) (log_write_up_to K l False)
       = log_write_up_to K l False log"
  proof (cases "log_write_up_to K l False log")
    case None
    then show ?thesis by simp
  next
    case (Some log')
    have "log_write_up_to K l False log' = Some log'"
    proof (cases "log' = log")
      case True
      then show ?thesis using Some by simp
    next
      case False
      then have "log_write_up_to_write K False log = Some log'"
        using log_write_up_to_cases[OF Some] by simp
      then have "buf_next_to_write log' = buf_free log'"
        by (rule log_write_up_to_write_fields(5))
      then show ?thesis by (subst log_write_up_to.simps) simp
    qed
    then show ?thesis using Some by simp
  qed
qed

section \<open>What the operations change\<close>

lemma log_calc_max_ages_frame:
  "snd (log_calc_max_ages K log) =
     log\<lparr>log_group_capacity := log_group_capacity (snd (log_calc_max_ages K log)),
         max_modified_age_async := max_modified_age_async (snd (log_calc_max_ages K log)),
         max_modified_age_sync := max_modified_age_sync (snd (log_calc_max_ages K log)),
         max_checkpoint_age_async := max_checkpoint_age_async (snd (log_calc_max_ages K log)),
         max_checkpoint_age := max_checkpoint_age (snd (log_calc_max_ages K log)),
         max_archived_lsn_age := max_archived_lsn_age (snd (log_calc_max_ages K log)),
         max_archived_lsn_age_async :=
           max_archived_lsn_age_async (snd (log_calc_max_ages K log))\<rparr>"
  by (simp add: log_calc_max_ages_def Let_def split: prod.splits)

lemma log_group_init_change:
  "\<exists>a b c d e f g.
     snd (log_group_init K i n fs sp asp log) =
       log\<lparr>log_groups := log_groups log @
              [\<lparr>group_id = i, n_files = n, file_size = fs,
                   space_id = sp, group_lsn = LOG_START_LSN K,
                   lsn_offset = LOG_FILE_HDR_SIZE K, archive_space_id = asp,
                   archived_file_no = LOG_START_LSN K, archived_offset = 0,
                   checkpoint_buf = zero_checkpoint_block\<rparr>],
           log_group_capacity := a, max_modified_age_async := b,
           max_modified_age_sync := c, max_checkpoint_age_async := d,
           max_checkpoint_age := e, max_archived_lsn_age := f,
           max_archived_lsn_age_async := g\<rparr>"
  unfolding log_group_init_def Let_def
  by (intro exI) (rule log_calc_max_ages_frame)

lemma log_write_low_change:
  assumes "log_write_low str str_len log = Some log'"
  shows "\<exists>a f b. log' = log\<lparr>lsn := a, buf_free := f, buf := b\<rparr>"
  by (intro exI) (rule log_write_low_frame[OF assms])

lemma log_close_change:
  "\<exists>b c t p w. snd (log_close log) =
     log\<lparr>buf := b, check_flush_or_checkpoint := c, srv_track_changed_pages := t,
         log_has_printed_chkp_warning := p, log_last_warning_time := w\<rparr>"
  unfolding log_close_summary snd_conv by (intro exI) (rule refl)

lemma log_close_fields:
  "lsn (snd (log_close log)) = lsn log" "buf_free (snd (log_close log)) = buf_free log"
  unfolding log_close_summary snd_conv by simp_all

text \<open>
  \<open>fil_names_clear\<close> appends to the log and closes: it changes what \<open>log_write_low\<close> and
  \<open>log_close\<close> change.
\<close>

lemma fil_names_clear_change:
  assumes "fil_names_clear K l do_write log = Some (cleared, log')"
  shows "\<exists>a f b c t p w. log' =
     log\<lparr>lsn := a, buf_free := f, buf := b,
         check_flush_or_checkpoint := c, srv_track_changed_pages := t,
         log_has_printed_chkp_warning := p, log_last_warning_time := w\<rparr>"
proof -
  have two: "\<exists>a f b c t p w. snd (log_close log2) =
     log\<lparr>lsn := a, buf_free := f,
         buf := b, check_flush_or_checkpoint := c, srv_track_changed_pages := t,
         log_has_printed_chkp_warning := p, log_last_warning_time := w\<rparr>"
    if "\<exists>a f b. log2 = log\<lparr>lsn := a, buf_free := f, buf := b\<rparr>" for log2
  proof -
    from that obtain a f b where e: "log2 = log\<lparr>lsn := a, buf_free := f, buf := b\<rparr>"
      by blast
    obtain b' c t p w where e': "snd (log_close log2) =
       log2\<lparr>buf := b', check_flush_or_checkpoint := c, srv_track_changed_pages := t,
         log_has_printed_chkp_warning := p, log_last_warning_time := w\<rparr>"
      using log_close_change[of log2] by blast
    have "snd (log_close log2) =
       log\<lparr>lsn := a, buf_free := f, buf := b', check_flush_or_checkpoint := c,
           srv_track_changed_pages := t,
           log_has_printed_chkp_warning := p, log_last_warning_time := w\<rparr>"
      unfolding e' unfolding e by simp
    then show ?thesis by (intro exI)
  qed
  show ?thesis
  proof (cases "fil_names_dirty log")
    case None
    show ?thesis
    proof (cases do_write)
      case True
      with None assms obtain log2 where
        w: "log_write_low (mlog_checkpoint_rec K l) (SIZE_OF_MLOG_CHECKPOINT K) log = Some log2"
        and e: "log' = snd (log_close log2)"
        by (auto simp: fil_names_clear_def split: option.splits)
      show ?thesis unfolding e by (rule two) (rule log_write_low_change[OF w])
    next
      case False
      with None assms have e: "log' = log" by (simp add: fil_names_clear_def)
      show ?thesis unfolding e
        by (intro exI[of _ "lsn log"] exI[of _ "buf_free log"] exI[of _ "buf log"]
            exI[of _ "check_flush_or_checkpoint log"]
            exI[of _ "srv_track_changed_pages log"]
            exI[of _ "log_has_printed_chkp_warning log"]
            exI[of _ "log_last_warning_time log"]) simp
    qed
  next
    case (Some a)
    with assms obtain names names_len log1 log2 where
      w1: "log_write_low names names_len log = Some log1"
      and w2: "log_write_low (mlog_checkpoint_rec K l) (SIZE_OF_MLOG_CHECKPOINT K) log1
               = Some log2"
      and e: "log' = snd (log_close log2)"
      by (auto simp: fil_names_clear_def split: option.splits prod.splits)
    obtain a1 f1 b1 where e1: "log1 = log\<lparr>lsn := a1, buf_free := f1, buf := b1\<rparr>"
      using log_write_low_change[OF w1] by blast
    obtain a2 f2 b2 where e2: "log2 = log1\<lparr>lsn := a2, buf_free := f2, buf := b2\<rparr>"
      using log_write_low_change[OF w2] by blast
    have "log2 = log\<lparr>lsn := a2, buf_free := f2, buf := b2\<rparr>"
      unfolding e2 unfolding e1 by simp
    then have "\<exists>a f b. log2 = log\<lparr>lsn := a, buf_free := f, buf := b\<rparr>"
      by (intro exI)
    then show ?thesis unfolding e by (rule two)
  qed
qed

text \<open>What a checkpoint write changes.\<close>

lemma log_group_checkpoint_summary:
  "log_group_checkpoint K i log =
     (if i \<ge> length (log_groups log) then None
      else case log_group_calc_lsn_offset K (next_checkpoint_lsn log) (log_groups log ! i) of
             None \<Rightarrow> None
           | Some lsn_offset' \<Rightarrow>
               Some (log\<lparr>log_groups := (log_groups log)
                             [i := (log_groups log ! i)\<lparr>checkpoint_buf :=
                                     log_group_checkpoint_buf K log (log_groups log ! i)
                                       lsn_offset'\<rparr>],
                         n_log_ios := n_log_ios log + 1,
                         checkpoint_lock :=
                           (n_pending_checkpoint_writes log = 0 \<or> checkpoint_lock log),
                         n_pending_checkpoint_writes := n_pending_checkpoint_writes log + 1,
                         fil_calls := fil_calls log @
                           [Write_checkpoint False (space_id (log_groups log ! i)) 0
                              (if next_checkpoint_no log AND 1 \<noteq> 0
                               then LOG_CHECKPOINT_2 K else LOG_CHECKPOINT_1 K)
                              OS_FILE_LOG_BLOCK_SIZE
                              (log_group_checkpoint_buf K log (log_groups log ! i)
                                 lsn_offset')]\<rparr>))"
  unfolding log_group_checkpoint_def Let_def
  by (simp split: option.splits)

lemma log_group_checkpoint_change:
  assumes "log_group_checkpoint K i log = Some log'"
  shows "\<exists>gs n c p fc. log' = log\<lparr>log_groups := gs, n_log_ios := n, checkpoint_lock := c,
                                n_pending_checkpoint_writes := p, fil_calls := fc\<rparr>"
proof -
  from assms obtain off where "log' = log\<lparr>log_groups := (log_groups log)
                             [i := (log_groups log ! i)\<lparr>checkpoint_buf :=
                                     log_group_checkpoint_buf K log (log_groups log ! i)
                                       off\<rparr>],
                         n_log_ios := n_log_ios log + 1,
                         checkpoint_lock :=
                           (n_pending_checkpoint_writes log = 0 \<or> checkpoint_lock log),
                         n_pending_checkpoint_writes := n_pending_checkpoint_writes log + 1,
                         fil_calls := fil_calls log @
                           [Write_checkpoint False (space_id (log_groups log ! i)) 0
                              (if next_checkpoint_no log AND 1 \<noteq> 0
                               then LOG_CHECKPOINT_2 K else LOG_CHECKPOINT_1 K)
                              OS_FILE_LOG_BLOCK_SIZE
                              (log_group_checkpoint_buf K log (log_groups log ! i)
                                 off)]\<rparr>"
    unfolding log_group_checkpoint_summary by (auto split: if_splits option.splits)
  then show ?thesis by (intro exI)
qed

lemma checkpoint_fields_same:
  "\<exists>gs n c p fc. log = log\<lparr>log_groups := gs, n_log_ios := n, checkpoint_lock := c,
                              n_pending_checkpoint_writes := p, fil_calls := fc\<rparr>"
  by (intro exI[of _ "log_groups log"] exI[of _ "n_log_ios log"]
      exI[of _ "checkpoint_lock log"] exI[of _ "n_pending_checkpoint_writes log"]
      exI[of _ "fil_calls log"]) simp

lemma fold_bind_None:
  "fold (\<lambda>i r. Option.bind r (g i)) js None = None"
  by (induction js) simp_all

lemma log_write_checkpoint_info_change:
  assumes "log_write_checkpoint_info K sync log = Some log'"
  shows "\<exists>gs n c p fc. log' = log\<lparr>log_groups := gs, n_log_ios := n, checkpoint_lock := c,
                                n_pending_checkpoint_writes := p, fil_calls := fc\<rparr>"
proof -
  have gen: "\<exists>gs n c p fc. log' = log\<lparr>log_groups := gs, n_log_ios := n,
                                checkpoint_lock := c,
                                n_pending_checkpoint_writes := p, fil_calls := fc\<rparr>"
    if "fold (\<lambda>i r. Option.bind r (log_group_checkpoint K i)) js (Some log) = Some log'"
    for js log
    using that
  proof (induction js arbitrary: log)
    case Nil
    then have "log' = log" by simp
    then show ?case using checkpoint_fields_same[of log] by simp
  next
    case (Cons j js)
    show ?case
    proof (cases "log_group_checkpoint K j log")
      case None
      with Cons.prems show ?thesis by (simp add: fold_bind_None)
    next
      case (Some log1)
      with Cons.prems have
        "fold (\<lambda>i r. Option.bind r (log_group_checkpoint K i)) js (Some log1) = Some log'"
        by simp
      from Cons.IH[OF this] obtain gs n c p fc where
        e: "log' = log1\<lparr>log_groups := gs, n_log_ios := n, checkpoint_lock := c,
                          n_pending_checkpoint_writes := p, fil_calls := fc\<rparr>"
        by blast
      from log_group_checkpoint_change[OF Some] obtain gs1 n1 c1 p1 fc1 where
        e1: "log1 = log\<lparr>log_groups := gs1, n_log_ios := n1, checkpoint_lock := c1,
                          n_pending_checkpoint_writes := p1, fil_calls := fc1\<rparr>"
        by blast
      have "log' = log\<lparr>log_groups := gs, n_log_ios := n, checkpoint_lock := c,
                          n_pending_checkpoint_writes := p, fil_calls := fc\<rparr>"
        unfolding e unfolding e1 by simp
      then show ?thesis by (intro exI)
    qed
  qed
  show ?thesis
  proof (cases "srv_read_only_mode log")
    case True
    with assms have "log' = log" by (simp add: log_write_checkpoint_info_def)
    then show ?thesis using checkpoint_fields_same[of log] by simp
  next
    case False
    with assms show ?thesis by (auto simp: log_write_checkpoint_info_def intro: gen)
  qed
qed

lemma log_write_up_to_change:
  assumes "log_write_up_to K l f log = Some log'"
  shows "\<exists>b n fc gs weo wl bn bf fl cf np fe.
           log' = log\<lparr>buf := b, n_log_ios := n, fil_calls := fc, log_groups := gs,
                       write_end_offset := weo, write_lsn := wl,
                       buf_next_to_write := bn, buf_free := bf,
                       flushed_to_disk_lsn := fl, current_flush_lsn := cf,
                       n_pending_flushes := np, flush_event := fe\<rparr>
           \<and> map checkpoint_buf gs = map checkpoint_buf (log_groups log)
           \<and> checkpoint_writes fc = checkpoint_writes (fil_calls log)
           \<and> ((wl = write_lsn log \<and> fl = flushed_to_disk_lsn log)
                \<or> (wl = lsn log \<and> (fl = lsn log \<or> fl = flushed_to_disk_lsn log)))"
proof (cases "log' = log")
  case True
  show ?thesis unfolding True
    by (rule exI[of _ "buf log"],
        rule exI[of _ "n_log_ios log"],
        rule exI[of _ "fil_calls log"],
        rule exI[of _ "log_groups log"],
        rule exI[of _ "write_end_offset log"],
        rule exI[of _ "write_lsn log"],
        rule exI[of _ "buf_next_to_write log"],
        rule exI[of _ "buf_free log"],
        rule exI[of _ "flushed_to_disk_lsn log"],
        rule exI[of _ "current_flush_lsn log"],
        rule exI[of _ "n_pending_flushes log"],
        rule exI[of _ "flush_event log"],
        simp)
next
  case False
  then have w: "log_write_up_to_write K f log = Some log'"
    using log_write_up_to_cases[OF assms] by simp
  note ff = log_write_up_to_write_fields[OF w]
  have d: "(write_lsn log' = write_lsn log
              \<and> flushed_to_disk_lsn log' = flushed_to_disk_lsn log)
            \<or> (write_lsn log' = lsn log
                \<and> (flushed_to_disk_lsn log' = lsn log
                     \<or> flushed_to_disk_lsn log' = flushed_to_disk_lsn log))"
    using ff(2,3) by auto
  show ?thesis
    by (rule exI[of _ "buf log'"],
        rule exI[of _ "n_log_ios log'"],
        rule exI[of _ "fil_calls log'"],
        rule exI[of _ "log_groups log'"],
        rule exI[of _ "write_end_offset log'"],
        rule exI[of _ "write_lsn log'"],
        rule exI[of _ "buf_next_to_write log'"],
        rule exI[of _ "buf_free log'"],
        rule exI[of _ "flushed_to_disk_lsn log'"],
        rule exI[of _ "current_flush_lsn log'"],
        rule exI[of _ "n_pending_flushes log'"],
        rule exI[of _ "flush_event log'"],
        intro conjI, rule ff(1), rule ff(6), rule ff(7), rule d)
qed

text \<open>The paths through \<open>log_checkpoint\<close>.\<close>

lemma log_checkpoint_path:
  assumes "log_checkpoint K sync wa log0 = Some (r, log')"
  shows "\<exists>c. checkpoint_writes c = checkpoint_writes (fil_calls log0)
          \<and> ((\<not> wa \<and> log_buf_pool_get_oldest_modification log0
                        = last_checkpoint_lsn log0 + SIZE_OF_MLOG_CHECKPOINT K
               \<and> r \<and> log' = log0\<lparr>fil_calls := c\<rparr>)
              \<or> (\<not> (\<not> wa \<and> log_buf_pool_get_oldest_modification log0
                        = last_checkpoint_lsn log0 + SIZE_OF_MLOG_CHECKPOINT K)
                  \<and> (\<exists>cleared log1 fl log2.
                        fil_names_clear K (log_buf_pool_get_oldest_modification log0)
                          (srv_shutdown_state log0 = SRV_SHUTDOWN_NONE
                           \<or> log_buf_pool_get_oldest_modification log0 \<noteq> lsn log0)
                          (log0\<lparr>fil_calls := c\<rparr>) = Some (cleared, log1)
                        \<and> log_write_up_to K fl True log1 = Some log2
                        \<and> ((\<not> wa \<and> last_checkpoint_lsn log2
                                     \<ge> log_buf_pool_get_oldest_modification log0
                              \<and> r \<and> log' = log2)
                            \<or> (\<not> (\<not> wa \<and> last_checkpoint_lsn log2
                                     \<ge> log_buf_pool_get_oldest_modification log0)
                                \<and> n_pending_checkpoint_writes log2 > 0 \<and> \<not> r \<and> log' = log2)
                            \<or> (\<not> (\<not> wa \<and> last_checkpoint_lsn log2
                                     \<ge> log_buf_pool_get_oldest_modification log0)
                                \<and> n_pending_checkpoint_writes log2 = 0 \<and> r
                                \<and> log_write_checkpoint_info K sync
                                     (log2\<lparr>next_checkpoint_lsn :=
                                         log_buf_pool_get_oldest_modification log0\<rparr>)
                                   = Some log')))))"
proof -
  define logc where "logc = (case srv_unix_file_flush_method log0 of
                   SRV_UNIX_NOSYNC \<Rightarrow> log0
                 | SRV_UNIX_ALL_O_DIRECT \<Rightarrow> log0
                 | _ \<Rightarrow> log0\<lparr>fil_calls := fil_calls log0 @ [Fil_flush_file_spaces]\<rparr>)"
  define c where "c = fil_calls logc"
  have lc: "logc = log0\<lparr>fil_calls := c\<rparr>"
    unfolding c_def logc_def by (cases "srv_unix_file_flush_method log0") simp_all
  have cw: "checkpoint_writes c = checkpoint_writes (fil_calls log0)"
    unfolding c_def logc_def
    by (cases "srv_unix_file_flush_method log0") (simp_all add: checkpoint_writes_append)
  define old where "old = log_buf_pool_get_oldest_modification log0"
  have f: "log_buf_pool_get_oldest_modification logc = old"
    "last_checkpoint_lsn logc = last_checkpoint_lsn log0"
    "srv_shutdown_state logc = srv_shutdown_state log0" "lsn logc = lsn log0"
    unfolding lc old_def by (simp_all add: log_buf_pool_get_oldest_modification_def Let_def)
  note a = assms[unfolded log_checkpoint_def Let_def, folded logc_def, unfolded f]
  have main: "(\<not> wa \<and> old = last_checkpoint_lsn log0 + SIZE_OF_MLOG_CHECKPOINT K
               \<and> r \<and> log' = logc)
              \<or> (\<not> (\<not> wa \<and> old = last_checkpoint_lsn log0 + SIZE_OF_MLOG_CHECKPOINT K)
                  \<and> (\<exists>cleared log1 fl log2.
                        fil_names_clear K old
                          (srv_shutdown_state log0 = SRV_SHUTDOWN_NONE \<or> old \<noteq> lsn log0)
                          logc = Some (cleared, log1)
                        \<and> log_write_up_to K fl True log1 = Some log2
                        \<and> ((\<not> wa \<and> last_checkpoint_lsn log2 \<ge> old \<and> r \<and> log' = log2)
                            \<or> (\<not> (\<not> wa \<and> last_checkpoint_lsn log2 \<ge> old)
                                \<and> n_pending_checkpoint_writes log2 > 0 \<and> \<not> r \<and> log' = log2)
                            \<or> (\<not> (\<not> wa \<and> last_checkpoint_lsn log2 \<ge> old)
                                \<and> n_pending_checkpoint_writes log2 = 0 \<and> r
                                \<and> log_write_checkpoint_info K sync
                                     (log2\<lparr>next_checkpoint_lsn := old\<rparr>)
                                   = Some log'))))"
  proof (cases "\<not> wa \<and> old = last_checkpoint_lsn log0 + SIZE_OF_MLOG_CHECKPOINT K")
    case True
    with a show ?thesis by simp
  next
    case early: False
    show ?thesis
    proof (cases "fil_names_clear K old
                    (srv_shutdown_state log0 = SRV_SHUTDOWN_NONE \<or> old \<noteq> lsn log0) logc")
      case None
      with a early show ?thesis by simp
    next
      case (Some p)
      obtain cleared log1 where p: "p = (cleared, log1)" by (cases p)
      note fnc = Some[unfolded p]
      define fl where "fl = (if cleared then lsn log1 else old)"
      show ?thesis
      proof (cases "log_write_up_to K fl True log1")
        case None
        with a early fnc show ?thesis by (simp add: fl_def)
      next
        case wu: (Some log2)
        have b: "(if \<not> wa \<and> last_checkpoint_lsn log2 \<ge> old
                          then Some (True, log2)
                          else if n_pending_checkpoint_writes log2 > 0 then Some (False, log2)
                          else
                            (case log_write_checkpoint_info K sync
                                    (log2\<lparr>next_checkpoint_lsn := old\<rparr>) of
                               None \<Rightarrow> None
                             | Some log3 \<Rightarrow> Some (True, log3))) = Some (r, log')"
          using a early fnc wu by (simp add: fl_def)
        have "(\<not> wa \<and> last_checkpoint_lsn log2 \<ge> old \<and> r \<and> log' = log2)
                            \<or> (\<not> (\<not> wa \<and> last_checkpoint_lsn log2 \<ge> old)
                                \<and> n_pending_checkpoint_writes log2 > 0 \<and> \<not> r \<and> log' = log2)
                            \<or> (\<not> (\<not> wa \<and> last_checkpoint_lsn log2 \<ge> old)
                                \<and> n_pending_checkpoint_writes log2 = 0 \<and> r
                                \<and> log_write_checkpoint_info K sync
                                     (log2\<lparr>next_checkpoint_lsn := old\<rparr>)
                                   = Some log')"
          using b by (auto split: if_splits option.splits simp: word_greater_zero_iff)
        then show ?thesis using early fnc wu by blast
      qed
    qed
  qed
  show ?thesis
    apply (rule exI[of _ c])
    apply (rule conjI[OF cw])
    using main unfolding lc old_def
    apply assumption
    done
qed

section \<open>The order of the three lsns\<close>

lemma lsn_order_log_init:
  assumes "log_init K w = Some log0" and "unat (LOG_START_LSN K) + 12 < 2 ^ 64"
  shows "lsn_order log0"
proof -
  have "unat (LOG_START_LSN K + 12) = unat (LOG_START_LSN K) + 12"
    using assms(2) unat_add_lem[of "LOG_START_LSN K" 12] by simp
  then have "LOG_START_LSN K \<le> LOG_START_LSN K + 12"
    by (simp add: word_le_nat_alt)
  then show ?thesis
    using log_init_fields(1,4,5)[OF assms(1)] by (simp add: lsn_order_def)
qed

lemma lsn_order_log_write_up_to:
  assumes "log_write_up_to K l f log = Some log'" and "lsn_order log"
  shows "lsn_order log'" and "lsn log' = lsn log"
proof -
  from log_write_up_to_change[OF assms(1)]
  obtain b n fc gs weo wl bn bf fl cf np fe where
    e: "log' = log\<lparr>buf := b, n_log_ios := n, fil_calls := fc, log_groups := gs,
                       write_end_offset := weo, write_lsn := wl,
                       buf_next_to_write := bn, buf_free := bf,
                       flushed_to_disk_lsn := fl, current_flush_lsn := cf,
                       n_pending_flushes := np, flush_event := fe\<rparr>"
    and d: "(wl = write_lsn log \<and> fl = flushed_to_disk_lsn log)
                \<or> (wl = lsn log \<and> (fl = lsn log \<or> fl = flushed_to_disk_lsn log))"
    by blast
  show "lsn log' = lsn log" unfolding e by simp
  show "lsn_order log'"
    using d assms(2) unfolding e by (auto simp: lsn_order_def)
qed

lemma lsn_order_log_checkpoint:
  assumes "log_checkpoint K sync wa log = Some (r, log')"
    and "lsn_order log" and "lsn log \<le> lsn log'"
  shows "lsn_order log'"
proof -
  from log_checkpoint_path[OF assms(1)] obtain c where
    p: "(r \<and> log' = log\<lparr>fil_calls := c\<rparr>)
        \<or> (\<exists>cleared log1 fl log2.
              fil_names_clear K (log_buf_pool_get_oldest_modification log)
                (srv_shutdown_state log = SRV_SHUTDOWN_NONE
                 \<or> log_buf_pool_get_oldest_modification log \<noteq> lsn log)
                (log\<lparr>fil_calls := c\<rparr>) = Some (cleared, log1)
              \<and> log_write_up_to K fl True log1 = Some log2
              \<and> (log' = log2
                  \<or> log_write_checkpoint_info K sync
                       (log2\<lparr>next_checkpoint_lsn :=
                           log_buf_pool_get_oldest_modification log\<rparr>) = Some log'))"
    by blast
  from p show ?thesis
  proof
    assume "r \<and> log' = log\<lparr>fil_calls := c\<rparr>"
    then show ?thesis using assms(2) by (simp add: lsn_order_def)
  next
    assume "\<exists>cleared log1 fl log2.
              fil_names_clear K (log_buf_pool_get_oldest_modification log)
                (srv_shutdown_state log = SRV_SHUTDOWN_NONE
                 \<or> log_buf_pool_get_oldest_modification log \<noteq> lsn log)
                (log\<lparr>fil_calls := c\<rparr>) = Some (cleared, log1)
              \<and> log_write_up_to K fl True log1 = Some log2
              \<and> (log' = log2
                  \<or> log_write_checkpoint_info K sync
                       (log2\<lparr>next_checkpoint_lsn :=
                           log_buf_pool_get_oldest_modification log\<rparr>) = Some log')"
    then obtain cleared log1 fl log2 where
      fnc: "fil_names_clear K (log_buf_pool_get_oldest_modification log)
                (srv_shutdown_state log = SRV_SHUTDOWN_NONE
                 \<or> log_buf_pool_get_oldest_modification log \<noteq> lsn log)
                (log\<lparr>fil_calls := c\<rparr>) = Some (cleared, log1)"
      and wu: "log_write_up_to K fl True log1 = Some log2"
      and fin: "log' = log2
                  \<or> log_write_checkpoint_info K sync
                       (log2\<lparr>next_checkpoint_lsn :=
                           log_buf_pool_get_oldest_modification log\<rparr>) = Some log'"
      by blast
    from fil_names_clear_change[OF fnc] obtain a f b ch t pw w where
      e1: "log1 = log\<lparr>fil_calls := c, lsn := a, buf_free := f, buf := b,
                      check_flush_or_checkpoint := ch, srv_track_changed_pages := t,
                      log_has_printed_chkp_warning := pw, log_last_warning_time := w\<rparr>"
      by auto
    from log_write_up_to_change[OF wu]
    obtain b2 n fc gs weo wl bn bf fl2 cf np fe where
      e2: "log2 = log1\<lparr>buf := b2, n_log_ios := n, fil_calls := fc, log_groups := gs,
                       write_end_offset := weo, write_lsn := wl,
                       buf_next_to_write := bn, buf_free := bf,
                       flushed_to_disk_lsn := fl2, current_flush_lsn := cf,
                       n_pending_flushes := np, flush_event := fe\<rparr>"
      and d: "(wl = write_lsn log1 \<and> fl2 = flushed_to_disk_lsn log1)
                \<or> (wl = lsn log1 \<and> (fl2 = lsn log1 \<or> fl2 = flushed_to_disk_lsn log1))"
      by blast
    have same: "lsn log' = lsn log2 \<and> write_lsn log' = write_lsn log2
                \<and> flushed_to_disk_lsn log' = flushed_to_disk_lsn log2"
      using fin
    proof
      assume "log' = log2"
      then show ?thesis by simp
    next
      assume "log_write_checkpoint_info K sync
                       (log2\<lparr>next_checkpoint_lsn :=
                           log_buf_pool_get_oldest_modification log\<rparr>) = Some log'"
      from log_write_checkpoint_info_change[OF this] obtain gs' n' c' p' fc' where
        "log' = log2\<lparr>next_checkpoint_lsn := log_buf_pool_get_oldest_modification log,
                      log_groups := gs', n_log_ios := n', checkpoint_lock := c',
                      n_pending_checkpoint_writes := p', fil_calls := fc'\<rparr>"
        by blast
      then show ?thesis by simp
    qed
    have l2: "lsn log2 = a" "write_lsn log2 = wl" "flushed_to_disk_lsn log2 = fl2"
      unfolding e2 e1 by simp_all
    have l1: "lsn log1 = a" "write_lsn log1 = write_lsn log"
      "flushed_to_disk_lsn log1 = flushed_to_disk_lsn log"
      unfolding e1 by simp_all
    have "lsn log \<le> a" using assms(3) same l2 by simp
    then show ?thesis
      using d assms(2) same unfolding l2 l1 lsn_order_def by auto
  qed
qed

lemma lsn_order_log_step:
  assumes "log_step K c log = Some log'" and "lsn_order log" and "lsn log \<le> lsn log'"
  shows "lsn_order log'"
proof (cases c)
  case (Call_log_group_init i n fs sp asp)
  obtain a b c' d e f g where
    e: "snd (log_group_init K i n fs sp asp log) =
       log\<lparr>log_groups := log_groups log @
              [\<lparr>group_id = i, n_files = n, file_size = fs,
                   space_id = sp, group_lsn = LOG_START_LSN K,
                   lsn_offset = LOG_FILE_HDR_SIZE K, archive_space_id = asp,
                   archived_file_no = LOG_START_LSN K, archived_offset = 0,
                   checkpoint_buf = zero_checkpoint_block\<rparr>],
           log_group_capacity := a, max_modified_age_async := b,
           max_modified_age_sync := c', max_checkpoint_age_async := d,
           max_checkpoint_age := e, max_archived_lsn_age := f,
           max_archived_lsn_age_async := g\<rparr>"
    using log_group_init_change[of K i n fs sp asp log] by blast
  have "log' = snd (log_group_init K i n fs sp asp log)"
    using assms(1) Call_log_group_init by simp
  then show ?thesis
    using assms(2) unfolding e by (simp add: lsn_order_def)
next
  case (Call_log_write_low str str_len)
  then have "log_write_low str str_len log = Some log'" using assms(1) by simp
  from log_write_low_change[OF this] obtain a f b where
    "log' = log\<lparr>lsn := a, buf_free := f, buf := b\<rparr>" by blast
  then show ?thesis using assms(2,3) by (auto simp: lsn_order_def)
next
  case Call_log_close
  obtain b c' t p w where e: "snd (log_close log) =
     log\<lparr>buf := b, check_flush_or_checkpoint := c', srv_track_changed_pages := t,
         log_has_printed_chkp_warning := p, log_last_warning_time := w\<rparr>"
    using log_close_change[of log] by blast
  have "log' = snd (log_close log)" using assms(1) Call_log_close by simp
  then show ?thesis using assms(2) unfolding e by (simp add: lsn_order_def)
next
  case Call_log_sys_write_completion
  then show ?thesis
    using assms(1,2) by (auto simp: lsn_order_def log_sys_write_completion_summary)
next
  case (Call_log_write_up_to l f)
  then show ?thesis using assms(1,2) lsn_order_log_write_up_to(1) by simp
next
  case Call_log_buffer_flush_to_disk
  then show ?thesis
    using assms(1,2) lsn_order_log_write_up_to(1) by (simp add: log_buffer_flush_to_disk_def)
next
  case (Call_log_checkpoint sync wa)
  then obtain r where "log_checkpoint K sync wa log = Some (r, log')"
    using assms(1) by auto
  then show ?thesis using assms(2,3) by (rule lsn_order_log_checkpoint)
next
  case Call_log_io_complete_checkpoint
  then show ?thesis
    using assms(1,2)
    by (auto simp: lsn_order_def log_io_complete_checkpoint_def log_complete_checkpoint_def
        Let_def)
next
  case (Surroundings e)
  then show ?thesis using assms(1,2) by (auto simp: lsn_order_def)
qed

lemma log_run_first:
  assumes "log_run K cs log = Some logs"
  shows "\<exists>rest. logs = log # rest"
  using assms by (cases cs) (auto split: option.splits)

lemma lsn_order_log_run:
  assumes "log_run K cs log = Some logs" and "lsn_order log" and "sorted (map lsn logs)"
  shows "list_all lsn_order logs"
  using assms
proof (induction cs arbitrary: log logs)
  case Nil
  then show ?case by auto
next
  case (Cons c cs)
  from Cons.prems(1) obtain log' logs' where
    s: "log_step K c log = Some log'" and r: "log_run K cs log' = Some logs'"
    and e: "logs = log # logs'"
    by (auto split: option.splits)
  from log_run_first[OF r] obtain rest where e': "logs' = log' # rest" by blast
  have le: "lsn log \<le> lsn log'" using Cons.prems(3) unfolding e e' by simp
  have o: "lsn_order log'" using s Cons.prems(2) le by (rule lsn_order_log_step)
  have "sorted (map lsn logs')" using Cons.prems(3) unfolding e by simp
  with r o have "list_all lsn_order logs'" by (rule Cons.IH)
  then show ?case using Cons.prems(2) unfolding e by simp
qed

text \<open>
  Claim C1. In a run of the log system that starts with \<open>log_init\<close> and in which the lsn
  never goes down (the 64-bit lsn does not wrap around), every state satisfies
  \<open>flushed_to_disk_lsn \<le> write_lsn \<le> lsn\<close>. A run is a list of calls of the functions
  that change the log system, with any arguments, and of changes of the surroundings.
  In particular \<open>log_write_low\<close> leaves \<open>write_lsn\<close> and \<open>flushed_to_disk_lsn\<close> as they
  are, \<open>log_sys_write_completion\<close> sets \<open>write_lsn\<close> to \<open>lsn\<close>, and the write section of
  \<open>log_write_up_to\<close> with a flush sets \<open>flushed_to_disk_lsn\<close> to \<open>write_lsn\<close> or to
  \<open>current_flush_lsn\<close>, which is not above \<open>write_lsn\<close>.
\<close>

theorem lsn_order_invariant:
  "(log_init K w = Some log0 \<and> unat (LOG_START_LSN K) + 12 < 2 ^ 64
      \<and> log_run K calls log0 = Some logs \<and> sorted (map lsn logs)
      \<longrightarrow> list_all lsn_order logs)
   \<and> (log_write_low str str_len log = Some log1
        \<longrightarrow> write_lsn log1 = write_lsn log
            \<and> flushed_to_disk_lsn log1 = flushed_to_disk_lsn log)
   \<and> write_lsn (log_sys_write_completion log) = lsn log
   \<and> lsn (log_sys_write_completion log) = lsn log
   \<and> (log_write_up_to_write K True log = Some log2
        \<longrightarrow> (flushed_to_disk_lsn log2 = write_lsn log2
              \<or> flushed_to_disk_lsn log2 = current_flush_lsn log2)
            \<and> current_flush_lsn log2 \<le> write_lsn log2)"
proof (intro conjI impI)
  assume a: "log_init K w = Some log0 \<and> unat (LOG_START_LSN K) + 12 < 2 ^ 64
      \<and> log_run K calls log0 = Some logs \<and> sorted (map lsn logs)"
  then have "lsn_order log0" using lsn_order_log_init by blast
  with a show "list_all lsn_order logs" using lsn_order_log_run by blast
next
  assume "log_write_low str str_len log = Some log1"
  from log_write_low_change[OF this] obtain a f b where
    e: "log1 = log\<lparr>lsn := a, buf_free := f, buf := b\<rparr>" by blast
  show "write_lsn log1 = write_lsn log" unfolding e by simp
  show "flushed_to_disk_lsn log1 = flushed_to_disk_lsn log" unfolding e by simp
next
  show "write_lsn (log_sys_write_completion log) = lsn log"
    by (simp add: log_sys_write_completion_summary)
  show "lsn (log_sys_write_completion log) = lsn log"
    by (simp add: log_sys_write_completion_summary)
next
  assume w: "log_write_up_to_write K True log = Some log2"
  note ff = log_write_up_to_write_fields[OF w]
  show "flushed_to_disk_lsn log2 = write_lsn log2
              \<or> flushed_to_disk_lsn log2 = current_flush_lsn log2"
    using ff(2,3) by simp
  show "current_flush_lsn log2 \<le> write_lsn log2"
    using ff(2) ff(4) by simp
qed

section \<open>The result of \<open>log_checkpoint\<close>\<close>

text \<open>
  Claim C2. \<open>log_checkpoint\<close> returns false exactly when it gets as far as its test of
  \<open>n_pending_checkpoint_writes\<close> and finds a checkpoint write pending; it gets there
  unless nothing was logged since the last checkpoint (the early return) or, at the
  re-check after the log was written, the last checkpoint is not older than the oldest
  modification; a call with \<open>write_always\<close> always gets there. The flush and the write of
  the log in between leave \<open>last_checkpoint_lsn\<close> and \<open>n_pending_checkpoint_writes\<close> as
  they are, so the condition is one on the state at the call. When the result is false
  the checkpoint state is the one at the call. When \<open>write_always\<close> is not set and the
  oldest modification is \<open>last_checkpoint_lsn + SIZE_OF_MLOG_CHECKPOINT\<close>, the call
  returns true and every field of \<^verbatim>\<open>log_t\<close> is as it was: the only effect is the call of
  \<^verbatim>\<open>fil_flush_file_spaces\<close>.
\<close>

theorem log_checkpoint_result:
  "(let oldest = log_buf_pool_get_oldest_modification log;
        nothing_logged = (\<not> write_always
           \<and> oldest = last_checkpoint_lsn log + SIZE_OF_MLOG_CHECKPOINT K);
        nothing_new = (\<not> write_always \<and> last_checkpoint_lsn log \<ge> oldest)
    in (nothing_logged \<longrightarrow>
          (\<exists>c. log_checkpoint K sync write_always log = Some (True, log\<lparr>fil_calls := c\<rparr>)))
       \<and> (log_checkpoint K sync write_always log = Some (r, log') \<longrightarrow>
            (\<not> r \<longleftrightarrow> \<not> nothing_logged \<and> \<not> nothing_new
                       \<and> n_pending_checkpoint_writes log > 0)
            \<and> (\<not> r \<longrightarrow> checkpoint_state log' = checkpoint_state log)))"
proof -
  define oldest where "oldest = log_buf_pool_get_oldest_modification log"
  define nothing_logged where "nothing_logged = (\<not> write_always
           \<and> oldest = last_checkpoint_lsn log + SIZE_OF_MLOG_CHECKPOINT K)"
  define nothing_new where
    "nothing_new = (\<not> write_always \<and> last_checkpoint_lsn log \<ge> oldest)"
  have early: "\<exists>c. log_checkpoint K sync write_always log = Some (True, log\<lparr>fil_calls := c\<rparr>)"
    if nothing_logged
  proof -
    define logc where "logc = (case srv_unix_file_flush_method log of
                   SRV_UNIX_NOSYNC \<Rightarrow> log
                 | SRV_UNIX_ALL_O_DIRECT \<Rightarrow> log
                 | _ \<Rightarrow> log\<lparr>fil_calls := fil_calls log @ [Fil_flush_file_spaces]\<rparr>)"
    have lc: "logc = log\<lparr>fil_calls := fil_calls logc\<rparr>"
      unfolding logc_def by (cases "srv_unix_file_flush_method log") simp_all
    have f: "log_buf_pool_get_oldest_modification logc = oldest"
      "last_checkpoint_lsn logc = last_checkpoint_lsn log"
      by (subst lc, simp add: oldest_def log_buf_pool_get_oldest_modification_def Let_def)+
    have "log_checkpoint K sync write_always log = Some (True, logc)"
      unfolding log_checkpoint_def Let_def logc_def[symmetric] f
      using that unfolding nothing_logged_def by simp
    then show ?thesis using lc by metis
  qed
  have late: "(\<not> r \<longleftrightarrow> \<not> nothing_logged \<and> \<not> nothing_new
                       \<and> n_pending_checkpoint_writes log > 0)
            \<and> (\<not> r \<longrightarrow> checkpoint_state log' = checkpoint_state log)"
    if a: "log_checkpoint K sync write_always log = Some (r, log')"
  proof -
    from log_checkpoint_path[OF a] obtain c where
      cw: "checkpoint_writes c = checkpoint_writes (fil_calls log)"
      and p: "(nothing_logged \<and> r)
              \<or> (\<not> nothing_logged
                  \<and> (\<exists>cleared log1 fl log2.
                        fil_names_clear K oldest
                          (srv_shutdown_state log = SRV_SHUTDOWN_NONE \<or> oldest \<noteq> lsn log)
                          (log\<lparr>fil_calls := c\<rparr>) = Some (cleared, log1)
                        \<and> log_write_up_to K fl True log1 = Some log2
                        \<and> ((\<not> write_always \<and> last_checkpoint_lsn log2 \<ge> oldest \<and> r)
                            \<or> (\<not> (\<not> write_always \<and> last_checkpoint_lsn log2 \<ge> oldest)
                                \<and> n_pending_checkpoint_writes log2 > 0 \<and> \<not> r \<and> log' = log2)
                            \<or> (\<not> (\<not> write_always \<and> last_checkpoint_lsn log2 \<ge> oldest)
                                \<and> n_pending_checkpoint_writes log2 = 0 \<and> r))))"
      unfolding nothing_logged_def oldest_def by blast
    from p show ?thesis
    proof
      assume "nothing_logged \<and> r"
      then show ?thesis by simp
    next
      assume "\<not> nothing_logged
                  \<and> (\<exists>cleared log1 fl log2.
                        fil_names_clear K oldest
                          (srv_shutdown_state log = SRV_SHUTDOWN_NONE \<or> oldest \<noteq> lsn log)
                          (log\<lparr>fil_calls := c\<rparr>) = Some (cleared, log1)
                        \<and> log_write_up_to K fl True log1 = Some log2
                        \<and> ((\<not> write_always \<and> last_checkpoint_lsn log2 \<ge> oldest \<and> r)
                            \<or> (\<not> (\<not> write_always \<and> last_checkpoint_lsn log2 \<ge> oldest)
                                \<and> n_pending_checkpoint_writes log2 > 0 \<and> \<not> r \<and> log' = log2)
                            \<or> (\<not> (\<not> write_always \<and> last_checkpoint_lsn log2 \<ge> oldest)
                                \<and> n_pending_checkpoint_writes log2 = 0 \<and> r)))"
      then obtain cleared log1 fl log2 where
        nl: "\<not> nothing_logged"
        and fnc: "fil_names_clear K oldest
                          (srv_shutdown_state log = SRV_SHUTDOWN_NONE \<or> oldest \<noteq> lsn log)
                          (log\<lparr>fil_calls := c\<rparr>) = Some (cleared, log1)"
        and wu: "log_write_up_to K fl True log1 = Some log2"
        and d: "(\<not> write_always \<and> last_checkpoint_lsn log2 \<ge> oldest \<and> r)
                            \<or> (\<not> (\<not> write_always \<and> last_checkpoint_lsn log2 \<ge> oldest)
                                \<and> n_pending_checkpoint_writes log2 > 0 \<and> \<not> r \<and> log' = log2)
                            \<or> (\<not> (\<not> write_always \<and> last_checkpoint_lsn log2 \<ge> oldest)
                                \<and> n_pending_checkpoint_writes log2 = 0 \<and> r)"
        by blast
      from fil_names_clear_change[OF fnc] obtain a f b ch t pw w where
        e1: "log1 = log\<lparr>fil_calls := c, lsn := a, buf_free := f, buf := b,
                      check_flush_or_checkpoint := ch, srv_track_changed_pages := t,
                      log_has_printed_chkp_warning := pw, log_last_warning_time := w\<rparr>"
        by auto
      from log_write_up_to_change[OF wu]
      obtain b2 n fc gs weo wl bn bf fl2 cf np fe where
        e2: "log2 = log1\<lparr>buf := b2, n_log_ios := n, fil_calls := fc, log_groups := gs,
                       write_end_offset := weo, write_lsn := wl,
                       buf_next_to_write := bn, buf_free := bf,
                       flushed_to_disk_lsn := fl2, current_flush_lsn := cf,
                       n_pending_flushes := np, flush_event := fe\<rparr>"
        and gs: "map checkpoint_buf gs = map checkpoint_buf (log_groups log1)"
        and fc: "checkpoint_writes fc = checkpoint_writes (fil_calls log1)"
        by blast
      have l1: "log_groups log1 = log_groups log" "fil_calls log1 = c"
        unfolding e1 by simp_all
      have l2: "last_checkpoint_lsn log2 = last_checkpoint_lsn log"
        "n_pending_checkpoint_writes log2 = n_pending_checkpoint_writes log"
        unfolding e2 e1 by simp_all
      have cs: "checkpoint_state log2 = checkpoint_state log"
        using gs fc cw unfolding l1 unfolding checkpoint_state_def e2 e1 by simp
      show ?thesis
        using d nl cs unfolding l2 nothing_new_def
        by (auto simp: word_greater_zero_iff)
    qed
  qed
  show ?thesis
    unfolding Let_def
    using early late
    unfolding nothing_logged_def nothing_new_def oldest_def
    by blast
qed

end
